theory Spec2Isabelle
  imports Complex_Main
begin

section \<open>Errors and matrix access\<close>

text \<open>
  The exceptions the modelled code can raise.  \<open>HTTPException\<close> carries the status code
  and the detail string of the FastAPI exception; \<open>IndexError\<close> is what Python raises on
  an out-of-range list subscript; \<open>UnboundLocalError\<close> is a read of a local variable
  that was never bound; \<open>Diverged\<close> stands for a \<^verbatim>\<open>while True\<close> loop that
  did not leave within the iteration budget given to its model.
\<close>

datatype error = IndexError | UnboundLocalError | Diverged | HTTPException nat string

type_synonym matrix = "int list list"

text \<open>\<^verbatim>\<open>m[i][j]\<close> for non-negative \<open>i\<close> and \<open>j\<close>: the row is subscripted first.\<close>

definition mx_get :: "matrix \<Rightarrow> nat \<Rightarrow> nat \<Rightarrow> error + int" where
  "mx_get m i j =
     (if i < length m then
        (if j < length (m ! i) then Inr (m ! i ! j) else Inl IndexError)
      else Inl IndexError)"

section \<open>Greedy fallback (routing\_solver.py)\<close>

text \<open>
  The body of the \<^verbatim>\<open>for j in range(num_stops)\<close> loop of \<^verbatim>\<open>greedy_fallback\<close>,
  run over the remaining indices.  The loop state is \<open>(best_j, best_time)\<close> (\<open>cur\<close> is the source's \<^verbatim>\<open>curr\<close>);
  \<open>best_j = None\<close> is the source's sentinel \<open>-1\<close> and \<open>best_time = None\<close> is
  \<^verbatim>\<open>float('inf')\<close>.  The conjunction of the two constraint checks is Python's
  short-circuit \<^verbatim>\<open>and\<close>: the time matrix is read only when the cost check passed.
\<close>

fun greedy_scan ::
  "matrix \<Rightarrow> matrix \<Rightarrow> int \<Rightarrow> int \<Rightarrow> nat list \<Rightarrow> nat \<Rightarrow> int \<Rightarrow> int \<Rightarrow>
   nat list \<Rightarrow> nat option \<times> int option \<Rightarrow> error + (nat option \<times> int option)" where
  "greedy_scan cm tm budget deadline visited cur cur_cost cur_time [] st = Inr st"
| "greedy_scan cm tm budget deadline visited cur cur_cost cur_time (j # js) st =
     (if j \<in> set visited then
        greedy_scan cm tm budget deadline visited cur cur_cost cur_time js st
      else
        (case mx_get cm cur j of
           Inl e \<Rightarrow> Inl e
         | Inr c \<Rightarrow>
             if cur_cost + c \<le> budget then
               (case mx_get tm cur j of
                  Inl e \<Rightarrow> Inl e
                | Inr t \<Rightarrow>
                    if cur_time + t \<le> deadline then
                      (if (case snd st of None \<Rightarrow> True | Some best_time \<Rightarrow> t < best_time)
                       then greedy_scan cm tm budget deadline visited cur cur_cost cur_time js
                              (Some j, Some t)
                       else greedy_scan cm tm budget deadline visited cur cur_cost cur_time js st)
                    else greedy_scan cm tm budget deadline visited cur cur_cost cur_time js st)
             else greedy_scan cm tm budget deadline visited cur cur_cost cur_time js st))"

lemma greedy_scan_pick:
  "greedy_scan cm tm budget deadline visited cur cc ct js st = Inr (Some j, bt) \<Longrightarrow>
   fst st = Some j \<or> (j \<in> set js \<and> j \<notin> set visited)"
proof (induction js arbitrary: st)
  case Nil
  then show ?case by simp
next
  case (Cons a js)
  from Cons.prems show ?case
    by (fastforce split: if_splits sum.splits dest: Cons.IH)
qed

text \<open>
  The \<^verbatim>\<open>while len(visited) < num_stops\<close> loop.  The Python set \<open>visited\<close> is kept
  as a duplicate-free list (\<open>List.insert\<close> adds an element only when it is new), so
  \<^verbatim>\<open>len(visited)\<close> is its length.  The result is \<open>None\<close> when the loop returned
  \<^verbatim>\<open>None\<close>, and otherwise the variables \<open>(route, cur, cur_cost, cur_time)\<close> at
  loop exit.
\<close>

function greedy_loop ::
  "nat \<Rightarrow> matrix \<Rightarrow> matrix \<Rightarrow> int \<Rightarrow> int \<Rightarrow> nat list \<Rightarrow> nat list \<Rightarrow> nat \<Rightarrow> int \<Rightarrow> int \<Rightarrow>
   error + (nat list \<times> nat \<times> int \<times> int) option" where
  "greedy_loop num_stops cm tm budget deadline visited route cur cur_cost cur_time =
     (if length visited < num_stops then
        (case greedy_scan cm tm budget deadline visited cur cur_cost cur_time
                [0..<num_stops] (None, None) of
           Inl e \<Rightarrow> Inl e
         | Inr (None, best_time) \<Rightarrow> Inr None
         | Inr (Some best_j, best_time) \<Rightarrow>
             (case mx_get cm cur best_j of
                Inl e \<Rightarrow> Inl e
              | Inr c \<Rightarrow>
                  (case mx_get tm cur best_j of
                     Inl e \<Rightarrow> Inl e
                   | Inr t \<Rightarrow>
                       greedy_loop num_stops cm tm budget deadline
                         (List.insert best_j visited) (route @ [best_j]) best_j
                         (cur_cost + c) (cur_time + t))))
      else Inr (Some (route, cur, cur_cost, cur_time)))"
  by pat_completeness auto
termination
proof (relation "measure (\<lambda>(n, cm, tm, b, d, visited, rest). n - length visited)")
  show "wf (measure (\<lambda>(n, cm, tm, b, d, visited, rest). n - length visited))"
    by simp
next
  fix num_stops :: nat and cm tm :: matrix and budget deadline :: int
    and visited route :: "nat list" and cur :: nat and cur_cost cur_time :: int
    and x2 :: "nat option \<times> int option" and x1 :: "nat option" and best_time :: "int option"
    and best_j :: nat and c t :: int
  assume lt: "length visited < num_stops"
    and scan: "greedy_scan cm tm budget deadline visited cur cur_cost cur_time
                 [0..<num_stops] (None, None) = Inr x2"
    and x2: "(x1, best_time) = x2" and x1: "x1 = Some best_j"
  from scan x2 x1 have "best_j \<notin> set visited"
    using greedy_scan_pick [of cm tm budget deadline visited cur cur_cost cur_time
        "[0..<num_stops]" "(None, None)" best_j best_time]
    by auto
  then have "length (List.insert best_j visited) = Suc (length visited)"
    by simp
  with lt show "((num_stops, cm, tm, budget, deadline, List.insert best_j visited,
                  route @ [best_j], best_j, cur_cost + c, cur_time + t),
                 (num_stops, cm, tm, budget, deadline, visited, route, cur,
                  cur_cost, cur_time))
                \<in> measure (\<lambda>(n, cm, tm, b, d, visited, rest). n - length visited)"
    by simp
qed

text \<open>
  \<^verbatim>\<open>greedy_fallback\<close>: only the length of \<open>stops\<close> is used.  After the loop the
  source checks the closing edge back to \<open>start_index\<close> against both limits and
  returns the route only when it fits.
\<close>

definition greedy_fallback ::
  "'a list \<Rightarrow> matrix \<Rightarrow> matrix \<Rightarrow> int \<Rightarrow> int \<Rightarrow> nat \<Rightarrow> error + nat list option" where
  "greedy_fallback stops cost_matrix time_matrix budget_cents deadline_seconds start_index =
     (case greedy_loop (length stops) cost_matrix time_matrix budget_cents deadline_seconds
             [start_index] [start_index] start_index 0 0 of
        Inl e \<Rightarrow> Inl e
      | Inr None \<Rightarrow> Inr None
      | Inr (Some (route, cur, cur_cost, cur_time)) \<Rightarrow>
          (case mx_get cost_matrix cur start_index of
             Inl e \<Rightarrow> Inl e
           | Inr c \<Rightarrow>
               if cur_cost + c \<le> budget_cents then
                 (case mx_get time_matrix cur start_index of
                    Inl e \<Rightarrow> Inl e
                  | Inr t \<Rightarrow>
                      if cur_time + t \<le> deadline_seconds then Inr (Some route) else Inr None)
               else Inr None))"

definition others :: "nat \<Rightarrow> nat \<Rightarrow> nat list" where
  "others n i = filter (\<lambda>j. i \<noteq> j) [0..<n]"

definition exactly_one :: "bool list \<Rightarrow> bool" where
  "exactly_one bs = (length (filter (\<lambda>b. b) bs) = 1)"

definition cp_model_holds ::
  "nat \<Rightarrow> matrix \<Rightarrow> matrix \<Rightarrow> int \<Rightarrow> int \<Rightarrow> nat \<Rightarrow> (nat \<Rightarrow> nat \<Rightarrow> bool) \<Rightarrow> (nat \<Rightarrow> int) \<Rightarrow> bool" where
  "cp_model_holds n cm tm budget deadline start x t =
     ((\<forall>i\<in>set [0..<n].
         exactly_one (map (\<lambda>j. x i j) (others n i)) \<and>
         exactly_one (map (\<lambda>j. x j i) (others n i))) \<and>
      (\<forall>i\<in>set [0..<n]. 0 \<le> t i \<and> t i \<le> deadline) \<and>
      t start = 0 \<and>
      (\<forall>i\<in>set [0..<n]. \<forall>j\<in>set (others n i). x i j \<longrightarrow> t i + tm ! i ! j \<le> t j) \<and>
      (\<Sum>i\<leftarrow>[0..<n]. \<Sum>j\<leftarrow>others n i. if x i j then cm ! i ! j else 0) \<le> budget)"

definition model_in_range :: "nat \<Rightarrow> matrix \<Rightarrow> matrix \<Rightarrow> nat \<Rightarrow> bool" where
  "model_in_range n cm tm start =
     (start < n \<and>
      (\<forall>i\<in>set [0..<n]. \<forall>j\<in>set (others n i).
         i < length tm \<and> j < length (tm ! i) \<and> i < length cm \<and> j < length (cm ! i)))"

type_synonym cp_solver =
  "nat \<Rightarrow> matrix \<Rightarrow> matrix \<Rightarrow> int \<Rightarrow> int \<Rightarrow> nat \<Rightarrow> ((nat \<Rightarrow> nat \<Rightarrow> bool) \<times> (nat \<Rightarrow> int)) option"

fun walk_route ::
  "nat \<Rightarrow> (nat \<Rightarrow> nat \<Rightarrow> bool) \<Rightarrow> nat \<Rightarrow> nat \<Rightarrow> nat \<Rightarrow> nat option \<Rightarrow> nat list \<Rightarrow> error + nat list" where
  "walk_route 0 x n start cur next_node route = Inl Diverged"
| "walk_route (Suc fuel) x n start cur next_node route =
     (case (case find (\<lambda>j. cur \<noteq> j \<and> x cur j) [0..<n] of
              Some j \<Rightarrow> Some j
            | None \<Rightarrow> next_node) of
        None \<Rightarrow> Inl UnboundLocalError
      | Some nxt \<Rightarrow>
          if nxt = start then Inr route
          else walk_route fuel x n start nxt (Some nxt) (route @ [nxt]))"

definition solve_vrptw ::
  "cp_solver \<Rightarrow> 'a list \<Rightarrow> matrix \<Rightarrow> matrix \<Rightarrow> int \<Rightarrow> int \<Rightarrow> nat \<Rightarrow> error + nat list option" where
  "solve_vrptw cp_sat stops cost_matrix time_matrix budget_cents deadline_seconds start_index =
     (let num_stops = length stops in
      if num_stops \<le> 1 then Inr (Some [0])
      else if \<not> model_in_range num_stops cost_matrix time_matrix start_index then Inl IndexError
      else
        (case cp_sat num_stops cost_matrix time_matrix budget_cents deadline_seconds start_index of
           None \<Rightarrow> Inr None
         | Some (x, t) \<Rightarrow>
             (case walk_route num_stops x num_stops start_index start_index None [start_index] of
                Inl e \<Rightarrow> Inl e
              | Inr route \<Rightarrow> Inr (Some route))))"

definition cp_sound :: "cp_solver \<Rightarrow> nat \<Rightarrow> matrix \<Rightarrow> matrix \<Rightarrow> int \<Rightarrow> int \<Rightarrow> nat \<Rightarrow> bool" where
  "cp_sound cp_sat n cm tm budget deadline start =
     (case cp_sat n cm tm budget deadline start of
        None \<Rightarrow> True
      | Some (x, t) \<Rightarrow> cp_model_holds n cm tm budget deadline start x t)"

fun path_sum :: "matrix \<Rightarrow> nat list \<Rightarrow> int" where
  "path_sum m (a # b # rest) = m ! a ! b + path_sum m (b # rest)"
| "path_sum m [a] = 0"
| "path_sum m [] = 0"

definition admissible :: "matrix \<Rightarrow> matrix \<Rightarrow> int \<Rightarrow> int \<Rightarrow> nat list \<Rightarrow> nat \<Rightarrow> bool" where
  "admissible cm tm budget deadline path j =
     (j \<notin> set path \<and>
      path_sum cm path + cm ! last path ! j \<le> budget \<and>
      path_sum tm path + tm ! last path ! j \<le> deadline)"

fun spec_greedy_extend ::
  "nat \<Rightarrow> nat \<Rightarrow> matrix \<Rightarrow> matrix \<Rightarrow> int \<Rightarrow> int \<Rightarrow> nat list \<Rightarrow> nat list option" where
  "spec_greedy_extend 0 n cm tm budget deadline path = Some path"
| "spec_greedy_extend (Suc k) n cm tm budget deadline path =
     (case filter (admissible cm tm budget deadline path) [0..<n] of
        [] \<Rightarrow> None
      | j # js \<Rightarrow>
          spec_greedy_extend k n cm tm budget deadline
            (path @ [arg_min_list (\<lambda>j. tm ! last path ! j) (j # js)]))"

definition spec_greedy_open ::
  "nat \<Rightarrow> matrix \<Rightarrow> matrix \<Rightarrow> int \<Rightarrow> int \<Rightarrow> nat \<Rightarrow> nat list option" where
  "spec_greedy_open n cm tm budget deadline start =
     spec_greedy_extend (n - 1) n cm tm budget deadline [start]"

definition square :: "nat \<Rightarrow> matrix \<Rightarrow> bool" where
  "square n m = (length m = n \<and> list_all (\<lambda>row. length row = n) m)"

definition pick :: "(nat \<Rightarrow> int) \<Rightarrow> nat list \<Rightarrow> nat option \<times> int option" where
  "pick f xs = (case xs of [] \<Rightarrow> (None, None)
                | _ \<Rightarrow> (Some (arg_min_list f xs), Some (f (arg_min_list f xs))))"

datatype TransportMode = WALKING | TRANSIT | EBIKE | RIDESHARE
datatype StopPriority = MUST_VISIT | NICE_TO_HAVE
datatype StopStatus = PENDING | COMPLETED | DROPPED
datatype ItineraryStatus = ACTIVE | REPLANNING | ITINERARY_COMPLETED
datatype DisruptionType = TRANSIT_DELAY | LINE_CANCELLATION | VENUE_CLOSED | WEATHER
datatype Severity = MINOR | MAJOR | CRITICAL
datatype FrictionLevel = LOW | MEDIUM | HIGH
datatype SourceType = LIVE_API | DEMO_INJECT

fun mode_str :: "TransportMode \<Rightarrow> string" where
  "mode_str WALKING = ''WALKING''"
| "mode_str TRANSIT = ''TRANSIT''"
| "mode_str EBIKE = ''EBIKE''"
| "mode_str RIDESHARE = ''RIDESHARE''"

record UserConstraints =
  budgetCents :: int
  returnDeadline :: string
  preferredModes :: "TransportMode list"

record Stop =
  stop_id :: string
  name :: string
  lat :: real
  lng :: real
  priority :: StopPriority
  status :: StopStatus
  dropReason :: "string option"

record Leg =
  fromStopId :: string
  toStopId :: string
  mode :: TransportMode
  costCents :: int
  durationSec :: int
  available :: bool
  polyline :: "string option"
  frictionScore :: "real option"
  frictionLevel :: "FrictionLevel option"

record ('s, 'l) Itinerary =
  itin_id :: string
  version :: int
  user :: UserConstraints
  stops :: "'s list"
  legs :: "'l list"
  totalCost :: int
  projectedETA :: string
  itin_status :: ItineraryStatus

record DisruptionEvent =
  event_id :: string
  event_type :: DisruptionType
  severity :: Severity
  affectedRoutes :: "string list option"
  affectedModes :: "string list option"
  affectedStopId :: "string option"
  delayMinutes :: "int option"
  timestamp :: string
  source :: SourceType

record ItineraryDiff =
  droppedStops :: "Stop list"
  newLegs :: "Leg list"
  changedLegs :: "Leg list"
  costDelta :: int
  etaDelta :: int

datatype call = FETCH_ALTERNATIVES | SOLVE_VRPTW | GREEDY_FALLBACK | PREDICT_FRICTION

record store =
  stop_objs :: "Stop list"
  leg_objs :: "Leg list"
  itin_objs :: "(nat, nat) Itinerary list"
  calls :: "call list"

definition set_leg :: "nat \<Rightarrow> (Leg \<Rightarrow> Leg) \<Rightarrow> store \<Rightarrow> store" where
  "set_leg a f h = h\<lparr>leg_objs := (leg_objs h)[a := f (leg_objs h ! a)]\<rparr>"

definition set_stop :: "nat \<Rightarrow> (Stop \<Rightarrow> Stop) \<Rightarrow> store \<Rightarrow> store" where
  "set_stop a f h = h\<lparr>stop_objs := (stop_objs h)[a := f (stop_objs h ! a)]\<rparr>"

definition or_empty :: "'a list option \<Rightarrow> 'a list" where
  "or_empty v = (case v of None \<Rightarrow> [] | Some xs \<Rightarrow> xs)"

definition route_key :: "Leg \<Rightarrow> string" where
  "route_key leg = fromStopId leg @ ''->'' @ toStopId leg"

definition delay_leg :: "DisruptionEvent \<Rightarrow> Leg \<Rightarrow> Leg" where
  "delay_leg event leg =
     (let affected_modes = or_empty (affectedModes event);
          affected_routes = or_empty (affectedRoutes event);
          leg1 = (if mode_str (mode leg) \<in> set affected_modes
                  then leg\<lparr>available := False\<rparr> else leg);
          leg2 = (if affected_routes \<noteq> [] \<and> route_key leg1 \<in> set affected_routes
                  then leg1\<lparr>available := False\<rparr> else leg1)
      in case delayMinutes event of
           None \<Rightarrow> leg2
         | Some dm \<Rightarrow>
             if event_type event = TRANSIT_DELAY \<and> dm \<noteq> 0 then
               (if mode_str (mode leg2) \<in> set affected_modes \<and> available leg2
                then leg2\<lparr>durationSec := durationSec leg2 + dm * 60\<rparr> else leg2)
             else leg2)"

definition close_stop :: "DisruptionEvent \<Rightarrow> string \<Rightarrow> Stop \<Rightarrow> Stop" where
  "close_stop event sid stop =
     (if stop_id stop = sid \<and> status stop = PENDING
      then stop\<lparr>status := DROPPED,
                dropReason := Some (''Venue closed (disruption '' @ event_id event @ '')'')\<rparr>
      else stop)"

definition close_leg :: "string \<Rightarrow> Leg \<Rightarrow> Leg" where
  "close_leg sid leg =
     (if fromStopId leg = sid \<or> toStopId leg = sid then leg\<lparr>available := False\<rparr> else leg)"

definition weather_leg :: "Leg \<Rightarrow> Leg" where
  "weather_leg leg =
     (if mode_str (mode leg) \<in> {''WALKING'', ''EBIKE''} then leg\<lparr>available := False\<rparr> else leg)"

definition apply_disruption :: "store \<Rightarrow> nat \<Rightarrow> DisruptionEvent \<Rightarrow> store" where
  "apply_disruption h itin event =
     (let it = itin_objs h ! itin in
      if event_type event \<in> {TRANSIT_DELAY, LINE_CANCELLATION} then
        fold (\<lambda>a. set_leg a (delay_leg event)) (legs it) h
      else if event_type event = VENUE_CLOSED then
        (case affectedStopId event of
           None \<Rightarrow> h
         | Some sid \<Rightarrow>
             if sid = [] then h
             else fold (\<lambda>a. set_leg a (close_leg sid)) (legs it)
                    (fold (\<lambda>a. set_stop a (close_stop event sid)) (stops it) h))
      else if event_type event = WEATHER then
        (if severity event \<in> {MAJOR, CRITICAL}
         then fold (\<lambda>a. set_leg a weather_leg) (legs it) h
         else h)
      else h)"

section \<open>Friction scorer (friction\_model.py)\<close>

text \<open>
  Scores are Python floats; they are modelled by exact reals, so rounding error of the
  float arithmetic is not part of the model.  The built-in \<^verbatim>\<open>hash\<close> of a string and
  the wall-clock hour are inputs of the scorer: both are read from the running process.
\<close>

definition classify_friction_level :: "real \<Rightarrow> FrictionLevel" where
  "classify_friction_level score =
     (if score < 0.3 then LOW else if score \<le> 0.7 then MEDIUM else HIGH)"

definition mock_friction_score :: "(string \<Rightarrow> int) \<Rightarrow> nat \<Rightarrow> Leg \<Rightarrow> real" where
  "mock_friction_score str_hash hour leg =
     (let base = (if mode leg = TRANSIT \<and> (7 \<le> hour \<and> hour \<le> 9 \<or> 17 \<le> hour \<and> hour \<le> 19)
                  then 0.55
                  else if mode leg = EBIKE then 0.25
                  else if mode leg = RIDESHARE then 0.35
                  else 0.15);
          hash_val = str_hash (fromStopId leg @ toStopId leg) mod 100;
          variation = (real_of_int hash_val - 50) * 0.004
      in max 0 (min 1 (base + variation)))"

section \<open>External collaborators\<close>

text \<open>
  What the pipeline obtains from outside the process is a field of \<open>env\<close>:
  \<^item> \<open>DEMO_SESSION\<close>: the configured demo session id;
  \<^item> \<open>directions i j origin dest mode\<close>: the leg data the fan-out ends up with for the
    pair \<open>(i, j)\<close>, whether it came from an upstream API or from the offline estimate;
  \<^item> \<open>cp_sat\<close>: the outcome of the CP-SAT search within its time limit;
  \<^item> \<open>deadline_remaining s\<close>: \<^verbatim>\<open>int((fromisoformat(s) - now).total_seconds())\<close>, or
    \<open>None\<close> when parsing raises \<^verbatim>\<open>ValueError\<close>;
  \<^item> \<open>new_eta d\<close>: the ISO string of the current instant plus \<open>d\<close> seconds;
  \<^item> \<open>eta_delta old d\<close>: the whole seconds between that instant and the old ETA;
  \<^item> \<open>friction_model\<close>: the classifier's probability when the artifact is present;
  \<^item> \<open>str_hash\<close>, \<open>hour\<close>: the process's string hash and the wall-clock hour;
  \<^item> \<open>round3\<close>: \<^verbatim>\<open>round(score, 3)\<close> on floats.
\<close>

record LegData =
  ld_costCents :: int
  ld_durationSec :: int
  ld_polyline :: string
  ld_available :: bool

record env =
  DEMO_SESSION :: string
  directions :: "nat \<Rightarrow> nat \<Rightarrow> Stop \<Rightarrow> Stop \<Rightarrow> TransportMode \<Rightarrow> LegData"
  cp_sat :: cp_solver
  deadline_remaining :: "string \<Rightarrow> int option"
  new_eta :: "int \<Rightarrow> string"
  eta_delta :: "string \<Rightarrow> int \<Rightarrow> int"
  friction_model :: "(Leg \<Rightarrow> real) option"
  str_hash :: "string \<Rightarrow> int"
  hour :: nat
  round3 :: "real \<Rightarrow> real"

record Meta =
  solver :: string
  stopsDropped :: nat
  meta_version :: int

record ReplanResult =
  itinerary :: "(Stop, Leg) Itinerary"
  diff :: ItineraryDiff
  meta :: Meta

definition log_call :: "call \<Rightarrow> store \<Rightarrow> store" where
  "log_call c h = h\<lparr>calls := calls h @ [c]\<rparr>"

section \<open>Friction scoring of a leg list\<close>

definition predict_friction :: "env \<Rightarrow> Leg list \<Rightarrow> (real \<times> FrictionLevel) list" where
  "predict_friction e leg_dicts =
     map (\<lambda>leg.
            let score = (case friction_model e of
                           Some m \<Rightarrow> m leg
                         | None \<Rightarrow> mock_friction_score (str_hash e) (hour e) leg)
            in (round3 e score, classify_friction_level score))
         leg_dicts"

section \<open>Matrix fan-out\<close>

type_synonym leg_details = "nat \<times> nat \<Rightarrow> (LegData \<times> TransportMode) option"

definition fetch_alternatives ::
  "env \<Rightarrow> Stop list \<Rightarrow> TransportMode list \<Rightarrow> matrix \<times> matrix \<times> leg_details" where
  "fetch_alternatives e active_stops preferred_modes =
     (let n = length active_stops;
          m = (case preferred_modes of [] \<Rightarrow> WALKING | m0 # _ \<Rightarrow> m0);
          result = (\<lambda>i j. directions e i j (active_stops ! i) (active_stops ! j) m);
          cost_matrix = map (\<lambda>i. map (\<lambda>j. if i = j then 0 else ld_costCents (result i j)) [0..<n])
                          [0..<n];
          time_matrix = map (\<lambda>i. map (\<lambda>j. if i = j then 0 else ld_durationSec (result i j)) [0..<n])
                          [0..<n];
          details = (\<lambda>(i, j). if i < n \<and> j < n \<and> i \<noteq> j then Some (result i j, m) else None)
      in (cost_matrix, time_matrix, details))"

section \<open>Stage 5: dropping the lowest-priority stop\<close>

text \<open>\<^verbatim>\<open>xs[:d] + xs[d+1:]\<close>, which is also what \<^verbatim>\<open>xs.pop(d)\<close> leaves for \<open>d\<close> in range.\<close>

definition remove_at :: "nat \<Rightarrow> 'a list \<Rightarrow> 'a list" where
  "remove_at d xs = take d xs @ drop (Suc d) xs"

definition shrink :: "nat \<Rightarrow> matrix \<Rightarrow> matrix" where
  "shrink d m = map (remove_at d) (remove_at d m)"

text \<open>
  The two passes of \<^verbatim>\<open>drop_lowest_priority\<close> over \<^verbatim>\<open>reversed(range(1, len(stops)))\<close>:
  the last index from 1 on that holds a \<open>NICE_TO_HAVE\<close> stop, else the last index from 1
  on, else nothing (the source's \<open>-1\<close>).
\<close>

definition drop_index :: "StopPriority list \<Rightarrow> nat option" where
  "drop_index prios =
     (case find (\<lambda>i. prios ! i = NICE_TO_HAVE) (rev [1..<length prios]) of
        Some i \<Rightarrow> Some i
      | None \<Rightarrow> (case rev [1..<length prios] of [] \<Rightarrow> None | i # _ \<Rightarrow> Some i))"

definition mark_dropped :: "Stop \<Rightarrow> Stop" where
  "mark_dropped s =
     s\<lparr>status := DROPPED, dropReason := Some ''Removed to satisfy budget/time constraints''\<rparr>"

text \<open>
  \<open>stops_to_route\<close> is a list of references to stop objects; the dropped stop object is
  mutated in the store, and is the same object the working itinerary refers to.
\<close>

definition drop_lowest_priority ::
  "store \<Rightarrow> nat list \<Rightarrow> matrix \<Rightarrow> matrix \<Rightarrow> store \<times> nat option \<times> nat list \<times> matrix \<times> matrix" where
  "drop_lowest_priority h stops_to_route cost_matrix time_matrix =
     (case drop_index (map (\<lambda>a. priority (stop_objs h ! a)) stops_to_route) of
        None \<Rightarrow> (h, None, stops_to_route, cost_matrix, time_matrix)
      | Some drop_idx \<Rightarrow>
          (set_stop (stops_to_route ! drop_idx) mark_dropped h,
           Some (stops_to_route ! drop_idx),
           remove_at drop_idx stops_to_route,
           shrink drop_idx cost_matrix,
           shrink drop_idx time_matrix))"

section \<open>Stages 3 to 5: the solver loop with drops\<close>

text \<open>Python truthiness of \<^verbatim>\<open>route_indices\<close>: \<^verbatim>\<open>None\<close> and the empty list are false.\<close>

definition truthy :: "nat list option \<Rightarrow> bool" where
  "truthy r = (case r of None \<Rightarrow> False | Some xs \<Rightarrow> xs \<noteq> [])"

text \<open>
  The loop \<^verbatim>\<open>for iteration in range(max_drop_iterations)\<close>; the first argument is the
  number of iterations left.  The loop variables are
  \<open>(stops_to_route, c_mx, t_mx, dropped_stops, route_indices)\<close>.  An exception raised by a
  solver leaves the loop and the request with it.
\<close>

type_synonym loop_vars = "nat list \<times> matrix \<times> matrix \<times> nat list \<times> nat list option"

fun solve_with_drops ::
  "nat \<Rightarrow> env \<Rightarrow> int \<Rightarrow> int \<Rightarrow> store \<Rightarrow> loop_vars \<Rightarrow> store \<times> (error + loop_vars)" where
  "solve_with_drops 0 e budget_cents deadline_sec h vars = (h, Inr vars)"
| "solve_with_drops (Suc k) e budget_cents deadline_sec h
     (stops_to_route, c_mx, t_mx, dropped_stops, route_indices) =
     (if length stops_to_route < 2 then
        (h, Inr (stops_to_route, c_mx, t_mx, dropped_stops, route_indices))
      else
        (let dumped = map (\<lambda>a. stop_objs h ! a) stops_to_route;
             h1 = log_call SOLVE_VRPTW h
         in case solve_vrptw (cp_sat e) dumped c_mx t_mx budget_cents deadline_sec 0 of
              Inl err \<Rightarrow> (h1, Inl err)
            | Inr r1 \<Rightarrow>
                (let h2 = (if truthy r1 then h1 else log_call GREEDY_FALLBACK h1) in
                 case (if truthy r1 then Inr r1
                       else greedy_fallback dumped c_mx t_mx budget_cents deadline_sec 0) of
                   Inl err \<Rightarrow> (h2, Inl err)
                 | Inr r2 \<Rightarrow>
                     if truthy r2 then
                       (h2, Inr (stops_to_route, c_mx, t_mx, dropped_stops, r2))
                     else
                       (case drop_lowest_priority h2 stops_to_route c_mx t_mx of
                          (h3, None, stops', c_mx', t_mx') \<Rightarrow>
                            (h3, Inr (stops', c_mx', t_mx', dropped_stops, r2))
                        | (h3, Some dropped, stops', c_mx', t_mx') \<Rightarrow>
                            solve_with_drops k e budget_cents deadline_sec h3
                              (stops', c_mx', t_mx', dropped_stops @ [dropped], r2)))))"

section \<open>Stage 6: legs of the solved route\<close>

definition nth_err :: "'a list \<Rightarrow> nat \<Rightarrow> error + 'a" where
  "nth_err xs i = (if i < length xs then Inr (xs ! i) else Inl IndexError)"

text \<open>
  The leg built for one step of the route: \<^verbatim>\<open>detail\<close> is the entry of the fan-out's
  detail map for the pair, if any; mode and polyline fall back to the first preferred
  mode and the empty string.
\<close>

definition route_leg ::
  "Stop \<Rightarrow> Stop \<Rightarrow> (LegData \<times> TransportMode) option \<Rightarrow> TransportMode \<Rightarrow> int \<Rightarrow> int \<Rightarrow> Leg" where
  "route_leg s_from s_to detail default_mode c t =
     \<lparr>fromStopId = stop_id s_from, toStopId = stop_id s_to,
      mode = (case detail of None \<Rightarrow> default_mode | Some (d, m) \<Rightarrow> m),
      costCents = c, durationSec = t, available = True,
      polyline = Some (case detail of None \<Rightarrow> [] | Some (d, m) \<Rightarrow> ld_polyline d),
      frictionScore = None, frictionLevel = None\<rparr>"

text \<open>
  The loop \<^verbatim>\<open>for k in range(len(route_indices) - 1)\<close>, with the running totals
  \<open>total_new_cost\<close> and \<open>total_new_duration\<close> kept beside the list of legs.
\<close>

fun build_legs ::
  "Stop list \<Rightarrow> matrix \<Rightarrow> matrix \<Rightarrow> leg_details \<Rightarrow> TransportMode \<Rightarrow> nat list \<Rightarrow>
   Leg list \<times> int \<times> int \<Rightarrow> error + (Leg list \<times> int \<times> int)" where
  "build_legs route_stops c_mx t_mx details default_mode (idx_from # idx_to # rest)
     (new_legs, total_new_cost, total_new_duration) =
     (case mx_get c_mx idx_from idx_to of
        Inl err \<Rightarrow> Inl err
      | Inr c \<Rightarrow>
          (case mx_get t_mx idx_from idx_to of
             Inl err \<Rightarrow> Inl err
           | Inr t \<Rightarrow>
               (case nth_err route_stops idx_from of
                  Inl err \<Rightarrow> Inl err
                | Inr s_from \<Rightarrow>
                    (case nth_err route_stops idx_to of
                       Inl err \<Rightarrow> Inl err
                     | Inr s_to \<Rightarrow>
                         build_legs route_stops c_mx t_mx details default_mode (idx_to # rest)
                           (new_legs @
                              [route_leg s_from s_to (details (idx_from, idx_to)) default_mode
                                 c t],
                            total_new_cost + c, total_new_duration + t)))))"
| "build_legs route_stops c_mx t_mx details default_mode route acc = Inr acc"

definition apply_friction :: "Leg list \<Rightarrow> (real \<times> FrictionLevel) list \<Rightarrow> Leg list" where
  "apply_friction new_legs friction_results =
     map (\<lambda>(leg, fr). leg\<lparr>frictionScore := Some (fst fr), frictionLevel := Some (snd fr)\<rparr>)
       (zip new_legs friction_results)
     @ drop (length friction_results) new_legs"

section \<open>Stage 7: diff and assembly\<close>

text \<open>
  \<open>old_leg_map\<close> is a dictionary built in list order, so for a repeated endpoint pair the
  last leg wins: it is looked up in the reversed association list.
\<close>

definition old_leg_map :: "Leg list \<Rightarrow> string \<times> string \<Rightarrow> Leg option" where
  "old_leg_map old_legs = map_of (rev (map (\<lambda>l. ((fromStopId l, toStopId l), l)) old_legs))"

definition leg_changed :: "Leg \<Rightarrow> Leg \<Rightarrow> bool" where
  "leg_changed old_leg leg =
     (costCents old_leg \<noteq> costCents leg \<or> durationSec old_leg \<noteq> durationSec leg \<or>
      mode old_leg \<noteq> mode leg)"

definition changed_legs_of :: "Leg list \<Rightarrow> Leg list \<Rightarrow> Leg list" where
  "changed_legs_of old_legs new_legs =
     filter (\<lambda>leg. case old_leg_map old_legs (fromStopId leg, toStopId leg) of
                     None \<Rightarrow> False
                   | Some old_leg \<Rightarrow> leg_changed old_leg leg) new_legs"

definition truly_new_legs_of :: "Leg list \<Rightarrow> Leg list \<Rightarrow> Leg list" where
  "truly_new_legs_of old_legs new_legs =
     filter (\<lambda>leg. old_leg_map old_legs (fromStopId leg, toStopId leg) = None) new_legs"

text \<open>
  The loop that reflects drops on the stop list of the new itinerary: a stop whose id is
  the id of a dropped stop takes status \<open>DROPPED\<close> and the reason of the first dropped
  stop with that id.
\<close>

definition reflect_drop :: "Stop list \<Rightarrow> Stop \<Rightarrow> Stop" where
  "reflect_drop dropped_stops stop =
     (case find (\<lambda>d. stop_id d = stop_id stop) dropped_stops of
        None \<Rightarrow> stop
      | Some matching \<Rightarrow> stop\<lparr>status := DROPPED, dropReason := dropReason matching\<rparr>)"

section \<open>The request's working copy\<close>

text \<open>
  \<^verbatim>\<open>itin = req.itinerary.model_copy(deep=True)\<close>: every stop and leg object of the
  request's itinerary is copied to a fresh address at the end of the store, and a new
  itinerary object refers to the copies.  A request parsed from JSON holds one object per
  list element, so the copy makes one object per reference.  References held by an
  itinerary object are addresses of live objects, hence in range of the store.
\<close>

definition deep_copy :: "store \<Rightarrow> nat \<Rightarrow> store \<times> nat" where
  "deep_copy h r =
     (let it = itin_objs h ! r;
          s_base = length (stop_objs h);
          l_base = length (leg_objs h)
      in (h\<lparr>stop_objs := stop_objs h @ map (\<lambda>a. stop_objs h ! a) (stops it),
            leg_objs := leg_objs h @ map (\<lambda>a. leg_objs h ! a) (legs it),
            itin_objs := itin_objs h @
              [it\<lparr>stops := [s_base..<s_base + length (stops it)],
                  legs := [l_base..<l_base + length (legs it)]\<rparr>]\<rparr>,
          length (itin_objs h)))"

definition truthy_str :: "string option \<Rightarrow> bool" where
  "truthy_str v = (case v of None \<Rightarrow> False | Some s \<Rightarrow> s \<noteq> [])"

section \<open>Hard-coded demo replan\<close>

text \<open>
  The drop reason contains an em dash, written here as its three UTF-8 bytes.  The GeoJSON
  geometries the source attaches under \<^verbatim>\<open>_geometries\<close> and the timing entries of
  \<^verbatim>\<open>meta\<close> are left out of the result.
\<close>

definition rooftop_reason :: string where
  "rooftop_reason =
     ''Rooftop Bar removed '' @ [CHR 0xE2, CHR 0x80, CHR 0x94] @
     '' insufficient budget after e-bike reroute''"

definition ebike_leg :: Leg where
  "ebike_leg =
     \<lparr>fromStopId = ''farmers-market'', toStopId = ''art-museum'', mode = EBIKE,
      costCents = 500, durationSec = 1200, available = True,
      polyline = Some ''ier~F~achVcAeAkAy@oAs@qAi@sA_@uAOuA@sAP'',
      frictionScore = Some 0.45, frictionLevel = Some MEDIUM\<rparr>"

definition rideshare_leg :: Leg where
  "rideshare_leg =
     \<lparr>fromStopId = ''art-museum'', toStopId = ''home'', mode = RIDESHARE,
      costCents = 750, durationSec = 1500, available = True,
      polyline = Some (''qmr~Ft_chVdBnCjBjCdBrB~@pA'' @ [CHR 0x60] @ ''@fBXrBJpBCnBQlB''),
      frictionScore = Some 0.22, frictionLevel = Some LOW\<rparr>"

definition hardcoded_maya_replan :: "store \<Rightarrow> nat \<Rightarrow> ReplanResult" where
  "hardcoded_maya_replan h itin =
     (let it = itin_objs h ! itin;
          new_stops = map (\<lambda>a. let s = stop_objs h ! a in
                                if stop_id s = ''rooftop-bar''
                                then s\<lparr>status := DROPPED, dropReason := Some rooftop_reason\<rparr>
                                else s) (stops it);
          dropped_stops = filter (\<lambda>s. stop_id s = ''rooftop-bar'') new_stops;
          original_first_leg =
            find (\<lambda>l. fromStopId l = ''home'' \<and> toStopId l = ''farmers-market'')
              (map (\<lambda>a. leg_objs h ! a) (legs it));
          new_legs = (case original_first_leg of None \<Rightarrow> [] | Some l \<Rightarrow> [l]) @
                     [ebike_leg, rideshare_leg];
          total_cost = sum_list (map costCents new_legs)
      in \<lparr>itinerary =
            \<lparr>itin_id = itin_id it, version = version it + 1, user = user it,
             stops = new_stops, legs = new_legs, totalCost = total_cost,
             projectedETA = ''19:50'', itin_status = ACTIVE\<rparr>,
          diff =
            \<lparr>droppedStops = dropped_stops, newLegs = [ebike_leg, rideshare_leg],
             changedLegs = [], costDelta = total_cost - totalCost it, etaDelta = 5\<rparr>,
          meta =
            \<lparr>solver = ''DEMO_HARDCODED'', stopsDropped = 1, meta_version = version it + 1\<rparr>\<rparr>)"

section \<open>The replan pipeline\<close>

text \<open>
  Everything after the drop loop has produced a route: the legs of the route, their
  friction scores, the diff against the request's itinerary \<open>old_itin\<close>, and the new
  itinerary.  The new itinerary is a second deep copy of the working copy that is only
  dumped, so it is built as a value.  The timing entries of \<^verbatim>\<open>meta\<close> are left out.
  \<open>response\<close> is the returned dictionary, from the scored legs \<open>new_legs\<close> and the
  two running totals.
\<close>

definition response ::
  "env \<Rightarrow> store \<Rightarrow> nat \<Rightarrow> nat \<Rightarrow> nat list \<Rightarrow> nat list option \<Rightarrow> Leg list \<Rightarrow> int \<Rightarrow> int \<Rightarrow>
   ReplanResult" where
  "response e h old_itin itin dropped_stops route_indices new_legs total_new_cost
     total_new_duration =
     (let it = itin_objs h ! itin;
          old = itin_objs h ! old_itin;
          old_legs = map (\<lambda>a. leg_objs h ! a) (legs old);
          dropped_vals = map (\<lambda>a. stop_objs h ! a) dropped_stops
      in \<lparr>itinerary =
            \<lparr>itin_id = itin_id it, version = version it + 1, user = user it,
             stops = map (reflect_drop dropped_vals) (map (\<lambda>a. stop_objs h ! a) (stops it)),
             legs = new_legs, totalCost = total_new_cost,
             projectedETA = new_eta e total_new_duration,
             itin_status = REPLANNING\<rparr>,
          diff =
            \<lparr>droppedStops = dropped_vals,
             newLegs = truly_new_legs_of old_legs new_legs,
             changedLegs = changed_legs_of old_legs new_legs,
             costDelta = total_new_cost - totalCost old,
             etaDelta = eta_delta e (projectedETA old) total_new_duration\<rparr>,
          meta =
            \<lparr>solver = (if truthy route_indices then ''OR_TOOLS'' else ''GREEDY''),
             stopsDropped = length dropped_stops,
             meta_version = version it + 1\<rparr>\<rparr>)"

definition assemble ::
  "env \<Rightarrow> store \<Rightarrow> nat \<Rightarrow> nat \<Rightarrow> leg_details \<Rightarrow> loop_vars \<Rightarrow> store \<times> (error + ReplanResult)" where
  "assemble e h old_itin itin details vars =
     (case vars of (stops_to_route, c_mx, t_mx, dropped_stops, route_indices) \<Rightarrow>
      let it = itin_objs h ! itin;
          default_mode = (case preferredModes (user it) of [] \<Rightarrow> WALKING | m0 # _ \<Rightarrow> m0);
          route = (case route_indices of None \<Rightarrow> [] | Some r \<Rightarrow> r)
      in case build_legs (map (\<lambda>a. stop_objs h ! a) stops_to_route) c_mx t_mx details
                default_mode route ([], 0, 0) of
           Inl err \<Rightarrow> (h, Inl err)
         | Inr (legs0, total_new_cost, total_new_duration) \<Rightarrow>
             (log_call PREDICT_FRICTION h,
              Inr (response e h old_itin itin dropped_stops route_indices
                     (apply_friction legs0 (predict_friction e legs0))
                     total_new_cost total_new_duration)))"

text \<open>\<^verbatim>\<open>[s for s in itin.stops if s.status == "PENDING"]\<close>, as a list of references.\<close>

definition active_refs :: "store \<Rightarrow> nat \<Rightarrow> nat list" where
  "active_refs h itin =
     filter (\<lambda>a. status (stop_objs h ! a) = PENDING) (stops (itin_objs h ! itin))"

text \<open>
  The deadline budget in seconds: \<^verbatim>\<open>max(1, int((deadline_dt - now).total_seconds()))\<close>,
  or 3600 when the deadline does not parse.
\<close>

definition deadline_budget :: "env \<Rightarrow> string \<Rightarrow> int" where
  "deadline_budget e s = (case deadline_remaining e s of None \<Rightarrow> 3600 | Some d \<Rightarrow> max 1 d)"

text \<open>The stops already dropped with a reason when the loop starts (stage 1 or earlier).\<close>

definition already_dropped :: "store \<Rightarrow> nat \<Rightarrow> nat list" where
  "already_dropped h itin =
     filter (\<lambda>a. status (stop_objs h ! a) = DROPPED \<and> truthy_str (dropReason (stop_objs h ! a)))
       (stops (itin_objs h ! itin))"

text \<open>
  \<^verbatim>\<open>replan_itinerary\<close>: \<open>req\<close> is the address of the request's itinerary object.  The
  result is the store after the call with either the raised exception or the response.
\<close>

definition replan_itinerary ::
  "env \<Rightarrow> store \<Rightarrow> nat \<Rightarrow> DisruptionEvent \<Rightarrow> store \<times> (error + ReplanResult)" where
  "replan_itinerary e h0 req event =
     (case deep_copy h0 req of (h1, itin) \<Rightarrow>
      if itin_id (itin_objs h1 ! itin) = DEMO_SESSION e \<and> event_type event = LINE_CANCELLATION
      then (h1, Inr (hardcoded_maya_replan h1 itin))
      else
        (let h2 = apply_disruption h1 itin event;
             it = itin_objs h2 ! itin;
             active_stops = active_refs h2 itin
         in if length active_stops < 2 then
              (h2, Inl (HTTPException 422 ''Need at least 2 active stops to build an itinerary.''))
            else
              (case fetch_alternatives e (map (\<lambda>a. stop_objs h2 ! a) active_stops)
                      (preferredModes (user it)) of
                 (cost_matrix, time_matrix, details) \<Rightarrow>
                 (let h3 = log_call FETCH_ALTERNATIVES h2;
                      deadline_sec = deadline_budget e (returnDeadline (user it));
                      budget_cents = budgetCents (user it);
                      dropped0 = already_dropped h3 itin
                  in (case solve_with_drops (length active_stops) e budget_cents deadline_sec h3
                             (active_stops, cost_matrix, time_matrix, dropped0, None) of
                        (h4, Inl err) \<Rightarrow> (h4, Inl err)
                      | (h4, Inr vars) \<Rightarrow>
                          if \<not> truthy (snd (snd (snd (snd vars)))) then
                            (h4, Inl (HTTPException 422
                               ''Unable to find any feasible route even after dropping all droppable stops.''))
                          else assemble e h4 req itin details vars)))))"

section \<open>Concrete requests\<close>

definition mk_stop :: "string \<Rightarrow> StopPriority \<Rightarrow> StopStatus \<Rightarrow> Stop" where
  "mk_stop i p s =
     \<lparr>stop_id = i, name = i, lat = 0, lng = 0, priority = p, status = s, dropReason = None\<rparr>"

definition mk_leg :: "string \<Rightarrow> string \<Rightarrow> TransportMode \<Rightarrow> int \<Rightarrow> int \<Rightarrow> Leg" where
  "mk_leg a b m c d =
     \<lparr>fromStopId = a, toStopId = b, mode = m, costCents = c, durationSec = d,
      available = True, polyline = None, frictionScore = None, frictionLevel = None\<rparr>"

text \<open>
  An environment in which the complete search never answers, every query takes 60 s, and
  only the two legs between the first two active stops are cheap.
\<close>

definition ex_env :: env where
  "ex_env =
     \<lparr>DEMO_SESSION = ''demo-maya-001'',
      directions = (\<lambda>i j origin dest m.
         \<lparr>ld_costCents = (if i + j = 1 then 1 else 100), ld_durationSec = 60,
          ld_polyline = [], ld_available = True\<rparr>),
      cp_sat = (\<lambda>n cm tm b d s. None),
      deadline_remaining = (\<lambda>s. Some 18000),
      new_eta = (\<lambda>d. ''eta''),
      eta_delta = (\<lambda>old d. d),
      friction_model = None,
      str_hash = (\<lambda>s. 50),
      hour = 12,
      round3 = (\<lambda>x. x)\<rparr>"

definition ex_itin :: "string \<Rightarrow> int \<Rightarrow> nat list \<Rightarrow> nat list \<Rightarrow> (nat, nat) Itinerary" where
  "ex_itin i b ss ls =
     \<lparr>itin_id = i, version = 1,
      user = \<lparr>budgetCents = b, returnDeadline = ''2030-01-01T20:00:00+00:00'',
              preferredModes = [TRANSIT, WALKING]\<rparr>,
      stops = ss, legs = ls, totalCost = 600, projectedETA = ''2030-01-01T19:00:00+00:00'',
      itin_status = ACTIVE\<rparr>"

text \<open>Three pending stops, the first of them \<open>NICE_TO_HAVE\<close>, and a budget of 10 cents.\<close>

definition ex_store :: store where
  "ex_store =
     \<lparr>stop_objs = [mk_stop ''a'' NICE_TO_HAVE PENDING, mk_stop ''b'' MUST_VISIT PENDING,
                   mk_stop ''c'' MUST_VISIT PENDING],
      leg_objs = [mk_leg ''a'' ''b'' TRANSIT 300 600, mk_leg ''b'' ''c'' TRANSIT 300 600],
      itin_objs = [ex_itin ''itin-1'' 10 [0, 1, 2] [0, 1]],
      calls = []\<rparr>"

text \<open>The same stops under the demo session id, with a budget of 1000 cents.\<close>

definition demo_store :: store where
  "demo_store = ex_store\<lparr>itin_objs := [ex_itin ''demo-maya-001'' 1000 [0, 1, 2] [0, 1]]\<rparr>"

text \<open>One completed stop and one pending stop.\<close>

definition two_stop_store :: store where
  "two_stop_store =
     \<lparr>stop_objs = [mk_stop ''stop-0'' MUST_VISIT COMPLETED, mk_stop ''stop-1'' MUST_VISIT PENDING],
      leg_objs = [mk_leg ''stop-0'' ''stop-1'' TRANSIT 300 600],
      itin_objs = [ex_itin ''itin-2'' 50000 [0, 1] [0]],
      calls = []\<rparr>"

definition mk_event :: "DisruptionType \<Rightarrow> DisruptionEvent" where
  "mk_event ty =
     \<lparr>event_id = ''evt-001'', event_type = ty, severity = MAJOR,
      affectedRoutes = None, affectedModes = Some [''TRANSIT''], affectedStopId = Some ''stop-1'',
      delayMinutes = Some 15, timestamp = ''2030-01-01T12:00:00+00:00'', source = DEMO_INJECT\<rparr>"

text \<open>
  Four pending stops with a \<open>NICE_TO_HAVE\<close> stop in second place, and an environment in
  which only the two legs between the first and the third active stop are cheap.
\<close>

definition ex_env2 :: env where
  "ex_env2 =
     ex_env\<lparr>directions := (\<lambda>i j origin dest m.
        \<lparr>ld_costCents = (if i + j = 2 then 1 else 100), ld_durationSec = 60,
         ld_polyline = [], ld_available = True\<rparr>)\<rparr>"

definition four_stop_store :: store where
  "four_stop_store =
     \<lparr>stop_objs = [mk_stop ''a'' MUST_VISIT PENDING, mk_stop ''b'' NICE_TO_HAVE PENDING,
                   mk_stop ''c'' MUST_VISIT PENDING, mk_stop ''d'' MUST_VISIT PENDING],
      leg_objs = [mk_leg ''a'' ''b'' TRANSIT 300 600, mk_leg ''b'' ''c'' TRANSIT 300 600],
      itin_objs = [ex_itin ''itin-4'' 10 [0, 1, 2, 3] [0, 1]],
      calls = []\<rparr>"

text \<open>
  Four stops of which the second, a \<open>NICE_TO_HAVE\<close> stop, is already completed; the
  budget is 10 cents.
\<close>

definition completed_store :: store where
  "completed_store =
     \<lparr>stop_objs = [mk_stop ''a'' MUST_VISIT PENDING, mk_stop ''b'' NICE_TO_HAVE COMPLETED,
                   mk_stop ''c'' MUST_VISIT PENDING, mk_stop ''d'' MUST_VISIT PENDING],
      leg_objs = [mk_leg ''a'' ''b'' TRANSIT 300 600, mk_leg ''b'' ''c'' TRANSIT 300 600],
      itin_objs = [ex_itin ''itin-5'' 10 [0, 1, 2, 3] [0, 1]],
      calls = []\<rparr>"

text \<open>
  An environment whose transit source answers 20 cents for a leg to a later stop and
  \<open>-15\<close> cents for a leg to an earlier one, every leg taking no time.  Its complete search
  answers with the assignment that selects every edge between distinct nodes and arrives
  everywhere at time 0, whenever that assignment satisfies the model.
\<close>

definition neg_env :: env where
  "neg_env =
     ex_env\<lparr>directions := (\<lambda>i j origin dest m.
        \<lparr>ld_costCents = (if i < j then 20 else - 15), ld_durationSec = 0,
         ld_polyline = [], ld_available = True\<rparr>),
      cp_sat := (\<lambda>n cm tm b d s.
        if cp_model_holds n cm tm b d s (\<lambda>i j. i \<noteq> j) (\<lambda>i. 0)
        then Some (\<lambda>i j. i \<noteq> j, \<lambda>i. 0) else None)\<rparr>"

text \<open>Two pending stops and a budget of 10 cents.\<close>

definition pair_store :: store where
  "pair_store =
     \<lparr>stop_objs = [mk_stop ''a'' MUST_VISIT PENDING, mk_stop ''b'' MUST_VISIT PENDING],
      leg_objs = [mk_leg ''a'' ''b'' TRANSIT 300 600],
      itin_objs = [ex_itin ''itin-6'' 10 [0, 1] [0]],
      calls = []\<rparr>"

section \<open>Notions used to state the properties\<close>

text \<open>The condition under which the request takes the hard-coded demo path.\<close>

definition demo_bypass :: "env \<Rightarrow> store \<Rightarrow> nat \<Rightarrow> DisruptionEvent \<Rightarrow> bool" where
  "demo_bypass e h req event =
     (itin_id (itin_objs h ! req) = DEMO_SESSION e \<and> event_type event = LINE_CANCELLATION)"

text \<open>
  Every object that exists in \<open>h\<close> is still there, at its address and with all its
  fields, in \<open>h'\<close>: the later store only adds objects behind the ones of \<open>h\<close>.
\<close>

definition untouched :: "store \<Rightarrow> store \<Rightarrow> bool" where
  "untouched h h' =
     (take (length (stop_objs h)) (stop_objs h') = stop_objs h \<and>
      take (length (leg_objs h)) (leg_objs h') = leg_objs h \<and>
      take (length (itin_objs h)) (itin_objs h') = itin_objs h)"

text \<open>
  The working copy of a request and the store after stage 1 has applied the disruption to
  it.
\<close>

definition working :: "store \<Rightarrow> nat \<Rightarrow> nat" where
  "working h req = snd (deep_copy h req)"

definition stage1 :: "store \<Rightarrow> nat \<Rightarrow> DisruptionEvent \<Rightarrow> store" where
  "stage1 h req event = apply_disruption (fst (deep_copy h req)) (working h req) event"

text \<open>
  For the routes of the complete search: a matrix without negative entries, the edges an
  assignment selects, and a list whose consecutive elements are related.
\<close>

definition nonneg :: "matrix \<Rightarrow> bool" where
  "nonneg m = (\<forall>row\<in>set m. \<forall>c\<in>set row. 0 \<le> c)"

definition selected :: "nat \<Rightarrow> (nat \<Rightarrow> nat \<Rightarrow> bool) \<Rightarrow> nat \<Rightarrow> nat \<Rightarrow> bool" where
  "selected n x i j = (i < n \<and> j < n \<and> i \<noteq> j \<and> x i j)"

fun chain :: "(nat \<Rightarrow> nat \<Rightarrow> bool) \<Rightarrow> nat list \<Rightarrow> bool" where
  "chain R (a # b # rest) = (R a b \<and> chain R (b # rest))"
| "chain R [a] = True"
| "chain R [] = True"

text \<open>The cost of the edge an assignment selects out of node \<open>i\<close>.\<close>

definition row_cost :: "nat \<Rightarrow> (nat \<Rightarrow> nat \<Rightarrow> bool) \<Rightarrow> matrix \<Rightarrow> nat \<Rightarrow> int" where
  "row_cost n x cm i = (\<Sum>j\<leftarrow>others n i. if x i j then cm ! i ! j else 0)"

text \<open>The consecutive pairs of a route: the edges its legs are built from.\<close>

fun edges :: "nat list \<Rightarrow> (nat \<times> nat) list" where
  "edges (a # b # rest) = (a, b) # edges (b # rest)"
| "edges [a] = []"
| "edges [] = []"

text \<open>
  The collaborator calls of \<open>j\<close> rounds of the solver loop in which the complete search
  found nothing and the greedy fallback ran.
\<close>

definition rounds :: "nat \<Rightarrow> call list" where
  "rounds j = concat (replicate j [SOLVE_VRPTW, GREEDY_FALLBACK])"

text \<open>The matrices and leg details the fan-out returns for a request (stage 3).\<close>

definition fanout :: "env \<Rightarrow> store \<Rightarrow> nat \<Rightarrow> DisruptionEvent \<Rightarrow> matrix \<times> matrix \<times> leg_details" where
  "fanout e h req event =
     fetch_alternatives e
       (map (\<lambda>a. stop_objs (stage1 h req event) ! a)
          (active_refs (stage1 h req event) (working h req)))
       (preferredModes (user (itin_objs h ! req)))"

section \<open>What each store operation leaves alone\<close>

lemma set_leg_frame [simp]:
  "stop_objs (set_leg a f h) = stop_objs h"
  "itin_objs (set_leg a f h) = itin_objs h"
  "calls (set_leg a f h) = calls h"
  "length (leg_objs (set_leg a f h)) = length (leg_objs h)"
  by (simp_all add: set_leg_def)

lemma set_stop_frame [simp]:
  "leg_objs (set_stop a f h) = leg_objs h"
  "itin_objs (set_stop a f h) = itin_objs h"
  "calls (set_stop a f h) = calls h"
  "length (stop_objs (set_stop a f h)) = length (stop_objs h)"
  by (simp_all add: set_stop_def)

lemma log_call_frame [simp]:
  "stop_objs (log_call c h) = stop_objs h"
  "leg_objs (log_call c h) = leg_objs h"
  "itin_objs (log_call c h) = itin_objs h"
  "calls (log_call c h) = calls h @ [c]"
  by (simp_all add: log_call_def)

lemma fold_set_leg_frame [simp]:
  "stop_objs (fold (\<lambda>a. set_leg a f) as h) = stop_objs h"
  "itin_objs (fold (\<lambda>a. set_leg a f) as h) = itin_objs h"
  "calls (fold (\<lambda>a. set_leg a f) as h) = calls h"
  "length (leg_objs (fold (\<lambda>a. set_leg a f) as h)) = length (leg_objs h)"
  by (induction as arbitrary: h; simp)+

lemma fold_set_stop_frame [simp]:
  "leg_objs (fold (\<lambda>a. set_stop a f) as h) = leg_objs h"
  "itin_objs (fold (\<lambda>a. set_stop a f) as h) = itin_objs h"
  "calls (fold (\<lambda>a. set_stop a f) as h) = calls h"
  "length (stop_objs (fold (\<lambda>a. set_stop a f) as h)) = length (stop_objs h)"
  by (induction as arbitrary: h; simp)+

lemma fold_set_leg_other:
  "a' \<notin> set as \<Longrightarrow> leg_objs (fold (\<lambda>a. set_leg a f) as h) ! a' = leg_objs h ! a'"
  by (induction as arbitrary: h) (auto simp: set_leg_def)

lemma fold_set_stop_other:
  "a' \<notin> set as \<Longrightarrow> stop_objs (fold (\<lambda>a. set_stop a f) as h) ! a' = stop_objs h ! a'"
  by (induction as arbitrary: h) (auto simp: set_stop_def)

lemma apply_disruption_frame [simp]:
  "itin_objs (apply_disruption h itin event) = itin_objs h"
  "calls (apply_disruption h itin event) = calls h"
  "length (stop_objs (apply_disruption h itin event)) = length (stop_objs h)"
  "length (leg_objs (apply_disruption h itin event)) = length (leg_objs h)"
  by (simp_all add: apply_disruption_def Let_def split: option.splits)

lemma apply_disruption_other_stop:
  "a \<notin> set (stops (itin_objs h ! itin)) \<Longrightarrow>
   stop_objs (apply_disruption h itin event) ! a = stop_objs h ! a"
  by (simp add: apply_disruption_def Let_def fold_set_stop_other split: option.splits)

lemma apply_disruption_other_leg:
  "a \<notin> set (legs (itin_objs h ! itin)) \<Longrightarrow>
   leg_objs (apply_disruption h itin event) ! a = leg_objs h ! a"
  by (simp add: apply_disruption_def Let_def fold_set_leg_other split: option.splits)

lemma deep_copy_frame:
  assumes "deep_copy h req = (h1, itin)"
  shows "itin = length (itin_objs h)"
    and "calls h1 = calls h"
    and "take (length (stop_objs h)) (stop_objs h1) = stop_objs h"
    and "take (length (leg_objs h)) (leg_objs h1) = leg_objs h"
    and "take (length (itin_objs h)) (itin_objs h1) = itin_objs h"
    and "stops (itin_objs h1 ! itin) =
           [length (stop_objs h)..<length (stop_objs h) + length (stops (itin_objs h ! req))]"
    and "legs (itin_objs h1 ! itin) =
           [length (leg_objs h)..<length (leg_objs h) + length (legs (itin_objs h ! req))]"
    and "itin_id (itin_objs h1 ! itin) = itin_id (itin_objs h ! req)"
    and "version (itin_objs h1 ! itin) = version (itin_objs h ! req)"
    and "user (itin_objs h1 ! itin) = user (itin_objs h ! req)"
    and "length (stop_objs h1) = length (stop_objs h) + length (stops (itin_objs h ! req))"
  using assms by (auto simp: deep_copy_def Let_def)

lemma find_in_set: "find P xs = Some x \<Longrightarrow> x \<in> set xs \<and> P x"
  by (induction xs) (auto split: if_splits)

lemma drop_index_range: "drop_index prios = Some i \<Longrightarrow> 1 \<le> i \<and> i < length prios"
proof -
  assume a: "drop_index prios = Some i"
  show ?thesis
  proof (cases "find (\<lambda>i. prios ! i = NICE_TO_HAVE) (rev [1..<length prios])")
    case None
    with a have "rev [1..<length prios] \<noteq> []" and "i = hd (rev [1..<length prios])"
      by (auto simp: drop_index_def split: list.splits)
    then have "i \<in> set (rev [1..<length prios])" using hd_in_set by blast
    then show ?thesis by auto
  next
    case (Some j)
    with a have "i = j" by (simp add: drop_index_def)
    with Some obtain k where "k < length (rev [1..<length prios])"
      and "i = rev [1..<length prios] ! k"
      unfolding find_Some_iff by blast
    then have "i \<in> set (rev [1..<length prios])"
      using nth_mem by blast
    then show ?thesis by auto
  qed
qed

lemma set_remove_at: "set (remove_at d xs) \<subseteq> set xs"
  by (auto simp: remove_at_def dest: in_set_takeD in_set_dropD)

lemma drop_lowest_priority_frame:
  assumes "drop_lowest_priority h ss cm tm = (h', dropped, ss', cm', tm')"
  shows "leg_objs h' = leg_objs h" and "itin_objs h' = itin_objs h" and "calls h' = calls h"
    and "length (stop_objs h') = length (stop_objs h)"
    and "set ss' \<subseteq> set ss"
    and "\<And>a. a \<notin> set ss \<Longrightarrow> stop_objs h' ! a = stop_objs h ! a"
proof -
  show "leg_objs h' = leg_objs h" "itin_objs h' = itin_objs h" "calls h' = calls h"
    "length (stop_objs h') = length (stop_objs h)"
    using assms by (auto simp: drop_lowest_priority_def split: option.splits)
  show "set ss' \<subseteq> set ss"
    using assms set_remove_at [of _ ss]
    by (auto simp: drop_lowest_priority_def split: option.splits)
  show "stop_objs h' ! a = stop_objs h ! a" if "a \<notin> set ss" for a
  proof (cases "drop_index (map (\<lambda>a. priority (stop_objs h ! a)) ss)")
    case None
    with assms show ?thesis by (simp add: drop_lowest_priority_def)
  next
    case (Some i)
    then have "i < length ss" using drop_index_range by fastforce
    then have "ss ! i \<in> set ss" by simp
    with that have "ss ! i \<noteq> a" by auto
    with assms Some show ?thesis by (auto simp: drop_lowest_priority_def set_stop_def)
  qed
qed

lemma solve_with_drops_frame:
  "solve_with_drops k e b d h (ss, cm, tm, dropped, r) = (h', res) \<Longrightarrow>
   leg_objs h' = leg_objs h \<and> itin_objs h' = itin_objs h \<and>
   length (stop_objs h') = length (stop_objs h) \<and>
   (\<forall>a. a \<notin> set ss \<longrightarrow> stop_objs h' ! a = stop_objs h ! a)"
proof (induction k arbitrary: h ss cm tm dropped r)
  case 0
  then show ?case by simp
next
  case (Suc k)
  show ?case
  proof (cases "length ss < 2")
    case True
    with Suc.prems show ?thesis by simp
  next
    case False
    let ?dumped = "map (\<lambda>a. stop_objs h ! a) ss"
    let ?h1 = "log_call SOLVE_VRPTW h"
    show ?thesis
    proof (cases "solve_vrptw (cp_sat e) ?dumped cm tm b d 0")
      case (Inl err)
      with Suc.prems False show ?thesis by (auto simp: Let_def)
    next
      case (Inr r1)
      let ?h2 = "if truthy r1 then ?h1 else log_call GREEDY_FALLBACK ?h1"
      let ?g = "if truthy r1 then Inr r1 else greedy_fallback ?dumped cm tm b d 0"
      show ?thesis
      proof (cases ?g)
        case (Inl err)
        with Suc.prems False Inr show ?thesis by (auto simp: Let_def split: if_splits)
      next
        case g: (Inr r2)
        show ?thesis
        proof (cases "truthy r2")
          case True
          with Suc.prems False Inr g show ?thesis by (auto simp: Let_def split: if_splits)
        next
          case nt: False
          obtain h3 dr ss' cm' tm' where
            dl: "drop_lowest_priority ?h2 ss cm tm = (h3, dr, ss', cm', tm')"
            by (metis prod_cases5)
          note fr = drop_lowest_priority_frame [OF dl]
          have h3: "leg_objs h3 = leg_objs h" "itin_objs h3 = itin_objs h"
            "length (stop_objs h3) = length (stop_objs h)"
            "\<And>a. a \<notin> set ss \<Longrightarrow> stop_objs h3 ! a = stop_objs h ! a"
            using fr by (auto split: if_splits)
          show ?thesis
          proof (cases dr)
            case None
            have "(h', res) = (h3, Inr (ss', cm', tm', dropped, r2))"
              using Suc.prems False Inr g nt dl None
              by (simp add: Let_def split: if_splits)
            then show ?thesis using h3 by simp
          next
            case (Some a0)
            have "solve_with_drops k e b d h3 (ss', cm', tm', dropped @ [a0], r2) = (h', res)"
              using Suc.prems False Inr g nt dl Some
              by (simp add: Let_def split: if_splits)
            from Suc.IH [OF this] show ?thesis using h3 fr(5) by auto
          qed
        qed
      qed
    qed
  qed
qed

section \<open>The paths through the pipeline\<close>

lemma replan_success_cases:
  assumes ok: "replan_itinerary e h req event = (h', Inr res)"
    and dc: "deep_copy h req = (h1, itin)"
  obtains (demo) "demo_bypass e h req event" "res = hardcoded_maya_replan h1 itin" "h' = h1"
  | (full) h4 cm tm details vars where
      "\<not> demo_bypass e h req event"
      "2 \<le> length (active_refs (apply_disruption h1 itin event) itin)"
      "fetch_alternatives e
         (map (\<lambda>a. stop_objs (apply_disruption h1 itin event) ! a)
            (active_refs (apply_disruption h1 itin event) itin))
         (preferredModes (user (itin_objs h ! req))) = (cm, tm, details)"
      "solve_with_drops (length (active_refs (apply_disruption h1 itin event) itin)) e
         (budgetCents (user (itin_objs h ! req)))
         (deadline_budget e (returnDeadline (user (itin_objs h ! req))))
         (log_call FETCH_ALTERNATIVES (apply_disruption h1 itin event))
         (active_refs (apply_disruption h1 itin event) itin, cm, tm,
          already_dropped (log_call FETCH_ALTERNATIVES (apply_disruption h1 itin event)) itin,
          None) = (h4, Inr vars)"
      "truthy (snd (snd (snd (snd vars))))"
      "assemble e h4 req itin details vars = (h', Inr res)"
proof (cases "demo_bypass e h req event")
  case True
  then have "itin_id (itin_objs h1 ! itin) = DEMO_SESSION e \<and> event_type event = LINE_CANCELLATION"
    using deep_copy_frame(8) [OF dc] by (simp add: demo_bypass_def)
  then have "res = hardcoded_maya_replan h1 itin" "h' = h1"
    using ok dc by (auto simp: replan_itinerary_def)
  then show ?thesis using True by (rule demo [rotated])
next
  case False
  let ?h2 = "apply_disruption h1 itin event"
  have u: "user (itin_objs ?h2 ! itin) = user (itin_objs h ! req)"
    using deep_copy_frame(10) [OF dc] by simp
  have nd: "\<not> (itin_id (itin_objs h1 ! itin) = DEMO_SESSION e \<and> event_type event = LINE_CANCELLATION)"
    using False deep_copy_frame(8) [OF dc] by (simp add: demo_bypass_def)
  have two: "2 \<le> length (active_refs ?h2 itin)"
    using ok dc nd by (auto simp: replan_itinerary_def Let_def split: if_splits)
  obtain cm tm details where fa: "fetch_alternatives e
         (map (\<lambda>a. stop_objs ?h2 ! a) (active_refs ?h2 itin))
         (preferredModes (user (itin_objs h ! req))) = (cm, tm, details)"
    by (metis prod_cases3)
  obtain h4 r where sw: "solve_with_drops (length (active_refs ?h2 itin)) e
         (budgetCents (user (itin_objs h ! req)))
         (deadline_budget e (returnDeadline (user (itin_objs h ! req))))
         (log_call FETCH_ALTERNATIVES ?h2)
         (active_refs ?h2 itin, cm, tm,
          already_dropped (log_call FETCH_ALTERNATIVES ?h2) itin, None) = (h4, r)"
    by (metis surj_pair)
  from ok dc nd two fa sw u obtain vars where
    r: "r = Inr vars" and tr: "truthy (snd (snd (snd (snd vars))))"
    and asm: "assemble e h4 req itin details vars = (h', Inr res)"
    by (auto simp: replan_itinerary_def Let_def split: if_splits sum.splits)
  show ?thesis using full [OF False two fa sw [unfolded r] tr asm] .
qed

section \<open>Assembly and the untouched part of the store\<close>

lemma assemble_success:
  assumes a: "assemble e h old_itin itin details (ss, cm, tm, dropped, r) = (h', Inr res)"
  shows "\<exists>legs0 tc td.
    build_legs (map (\<lambda>a. stop_objs h ! a) ss) cm tm details
       (case preferredModes (user (itin_objs h ! itin)) of [] \<Rightarrow> WALKING | m0 # _ \<Rightarrow> m0)
       (case r of None \<Rightarrow> [] | Some x \<Rightarrow> x) ([], 0, 0) = Inr (legs0, tc, td) \<and>
    h' = log_call PREDICT_FRICTION h \<and>
    res = response e h old_itin itin dropped r (apply_friction legs0 (predict_friction e legs0))
            tc td"
proof (cases "build_legs (map (\<lambda>a. stop_objs h ! a) ss) cm tm details
       (case preferredModes (user (itin_objs h ! itin)) of [] \<Rightarrow> WALKING | m0 # _ \<Rightarrow> m0)
       (case r of None \<Rightarrow> [] | Some x \<Rightarrow> x) ([], 0, 0)")
  case (Inl err)
  with a show ?thesis by (simp add: assemble_def)
next
  case (Inr t)
  obtain legs0 tc td where t: "t = (legs0, tc, td)" by (cases t)
  from a Inr t show ?thesis by (auto simp: assemble_def Let_def)
qed

lemma response_fields [simp]:
  "version (itinerary (response e h old_itin itin dropped r new_legs tc td)) =
     version (itin_objs h ! itin) + 1"
  "itin_status (itinerary (response e h old_itin itin dropped r new_legs tc td)) = REPLANNING"
  "user (itinerary (response e h old_itin itin dropped r new_legs tc td)) =
     user (itin_objs h ! itin)"
  "legs (itinerary (response e h old_itin itin dropped r new_legs tc td)) = new_legs"
  "totalCost (itinerary (response e h old_itin itin dropped r new_legs tc td)) = tc"
  "stops (itinerary (response e h old_itin itin dropped r new_legs tc td)) =
     map (reflect_drop (map (\<lambda>a. stop_objs h ! a) dropped))
       (map (\<lambda>a. stop_objs h ! a) (stops (itin_objs h ! itin)))"
  "solver (meta (response e h old_itin itin dropped r new_legs tc td)) =
     (if truthy r then ''OR_TOOLS'' else ''GREEDY'')"
  "droppedStops (diff (response e h old_itin itin dropped r new_legs tc td)) =
     map (\<lambda>a. stop_objs h ! a) dropped"
  by (simp_all add: response_def Let_def)

lemma assemble_store:
  "fst (assemble e h old_itin itin details vars) = h \<or>
   fst (assemble e h old_itin itin details vars) = log_call PREDICT_FRICTION h"
  by (simp add: assemble_def Let_def split: sum.splits prod.splits)

lemma untouched_refl: "untouched h h"
  by (simp add: untouched_def)

lemma take_all_length: "take n xs = ys \<Longrightarrow> length ys = n \<Longrightarrow> n \<le> length xs"
  by (metis length_take min.cobounded2 min.commute)

lemma untouched_step:
  assumes u: "untouched h h1"
    and len: "length (stop_objs h2) = length (stop_objs h1)"
      "length (leg_objs h2) = length (leg_objs h1)"
    and it: "itin_objs h2 = itin_objs h1"
    and st: "\<And>a. a < length (stop_objs h) \<Longrightarrow> stop_objs h2 ! a = stop_objs h1 ! a"
    and lg: "\<And>a. a < length (leg_objs h) \<Longrightarrow> leg_objs h2 ! a = leg_objs h1 ! a"
  shows "untouched h h2"
proof -
  have ts: "take (length (stop_objs h)) (stop_objs h1) = stop_objs h"
    and tl: "take (length (leg_objs h)) (leg_objs h1) = leg_objs h"
    and ti: "take (length (itin_objs h)) (itin_objs h1) = itin_objs h"
    using u by (simp_all add: untouched_def)
  have ls: "length (stop_objs h) \<le> length (stop_objs h1)"
    using ts by (rule take_all_length) simp
  have ll: "length (leg_objs h) \<le> length (leg_objs h1)"
    using tl by (rule take_all_length) simp
  have "take (length (stop_objs h)) (stop_objs h2) = take (length (stop_objs h)) (stop_objs h1)"
    using ls len st by (intro nth_take_lemma) auto
  moreover have "take (length (leg_objs h)) (leg_objs h2) = take (length (leg_objs h)) (leg_objs h1)"
    using ll len lg by (intro nth_take_lemma) auto
  ultimately show ?thesis using ts tl ti it by (simp add: untouched_def)
qed

lemma untouched_log_call: "untouched h h1 \<Longrightarrow> untouched h (log_call c h1)"
  by (simp add: untouched_def)

lemma active_refs_subset: "set (active_refs h itin) \<subseteq> set (stops (itin_objs h ! itin))"
  by (auto simp: active_refs_def)

section \<open>One step of the drop loop\<close>

lemma mark_dropped_fields [simp]:
  "priority (mark_dropped s) = priority s"
  "stop_id (mark_dropped s) = stop_id s"
  "status (mark_dropped s) = DROPPED"
  by (simp_all add: mark_dropped_def)

lemma set_stop_mark_priority [simp]:
  "priority (stop_objs (set_stop x mark_dropped h) ! a) = priority (stop_objs h ! a)"
  by (cases "x < length (stop_objs h)"; cases "a = x"; simp add: set_stop_def list_update_beyond)

lemma set_stop_mark_status:
  "status (stop_objs h ! a) = DROPPED \<Longrightarrow> status (stop_objs (set_stop x mark_dropped h) ! a) = DROPPED"
  by (cases "x < length (stop_objs h)"; cases "a = x"; simp add: set_stop_def list_update_beyond)

lemma set_stop_mark_self:
  "x < length (stop_objs h) \<Longrightarrow> status (stop_objs (set_stop x mark_dropped h) ! x) = DROPPED"
  by (simp add: set_stop_def)

lemma tl_remove_at: "1 \<le> i \<Longrightarrow> tl (remove_at i xs) = remove_at (i - 1) (tl xs)"
  by (cases xs; cases i) (simp_all add: remove_at_def)

lemma set_remove_at_cover: "i < length xs \<Longrightarrow> set xs \<subseteq> insert (xs ! i) (set (remove_at i xs))"
proof
  fix a assume i: "i < length xs" and "a \<in> set xs"
  then obtain j where j: "j < length xs" "xs ! j = a" by (auto simp: in_set_conv_nth)
  have xs: "xs = take i xs @ xs ! i # drop (Suc i) xs" using i by (rule id_take_nth_drop)
  have "a \<in> set (take i xs @ xs ! i # drop (Suc i) xs)" using xs \<open>a \<in> set xs\<close> by simp
  then show "a \<in> insert (xs ! i) (set (remove_at i xs))" by (auto simp: remove_at_def)
qed

lemma drop_lowest_priority_Some:
  assumes "drop_lowest_priority h ss cm tm = (h3, Some x, ss1, cm1, tm1)"
  shows "\<exists>i. 1 \<le> i \<and> i < length ss \<and> x = ss ! i \<and> ss1 = remove_at i ss \<and>
             h3 = set_stop x mark_dropped h \<and>
             (priority (stop_objs h ! x) \<noteq> NICE_TO_HAVE \<longrightarrow>
                (\<forall>a\<in>set (tl ss). priority (stop_objs h ! a) \<noteq> NICE_TO_HAVE)) \<and>
             cm1 = shrink i cm \<and> tm1 = shrink i tm"
proof -
  let ?prios = "map (\<lambda>a. priority (stop_objs h ! a)) ss"
  from assms obtain i where di: "drop_index ?prios = Some i"
    and x: "x = ss ! i" and ss1: "ss1 = remove_at i ss" and h3: "h3 = set_stop x mark_dropped h"
    and mx: "cm1 = shrink i cm" "tm1 = shrink i tm"
    by (auto simp: drop_lowest_priority_def split: option.splits)
  have rng: "1 \<le> i" "i < length ss" using drop_index_range [OF di] by simp_all
  have "\<forall>a\<in>set (tl ss). priority (stop_objs h ! a) \<noteq> NICE_TO_HAVE"
    if nn: "priority (stop_objs h ! x) \<noteq> NICE_TO_HAVE"
  proof -
    have "find (\<lambda>i. ?prios ! i = NICE_TO_HAVE) (rev [1..<length ?prios]) = None"
    proof (cases "find (\<lambda>i. ?prios ! i = NICE_TO_HAVE) (rev [1..<length ?prios])")
      case (Some j)
      then have "i = j" using di by (simp add: drop_index_def)
      moreover have "?prios ! j = NICE_TO_HAVE" using find_in_set [OF Some] by simp
      ultimately show ?thesis using nn x rng by simp
    qed simp
    then have none: "\<And>j. 1 \<le> j \<Longrightarrow> j < length ss \<Longrightarrow> ?prios ! j \<noteq> NICE_TO_HAVE"
      by (auto simp: find_None_iff)
    show ?thesis
    proof
      fix a assume "a \<in> set (tl ss)"
      then obtain j where j: "j < length (tl ss)" "tl ss ! j = a" by (auto simp: in_set_conv_nth)
      then have "Suc j < length ss" "ss ! Suc j = a" by (simp_all add: nth_tl)
      then show "priority (stop_objs h ! a) \<noteq> NICE_TO_HAVE" using none [of "Suc j"] by auto
    qed
  qed
  then show ?thesis using rng x ss1 h3 mx by blast
qed

lemma solve_with_drops_cases:
  assumes "solve_with_drops (Suc k) e b d h (ss, cm, tm, dropped, r) = (h', Inr vars')"
  obtains (stop) "length ss < 2" "h' = h" "vars' = (ss, cm, tm, dropped, r)"
  | (found) r2 r1 where "2 \<le> length ss" "truthy r2" "vars' = (ss, cm, tm, dropped, r2)"
      "stop_objs h' = stop_objs h"
      "solve_vrptw (cp_sat e) (map (\<lambda>a. stop_objs h ! a) ss) cm tm b d 0 = Inr r2 \<or>
       greedy_fallback (map (\<lambda>a. stop_objs h ! a) ss) cm tm b d 0 = Inr r2"
      "solve_vrptw (cp_sat e) (map (\<lambda>a. stop_objs h ! a) ss) cm tm b d 0 = Inr r1"
      "h' = (if truthy r1 then log_call SOLVE_VRPTW h
             else log_call GREEDY_FALLBACK (log_call SOLVE_VRPTW h))"
      "(if truthy r1 then Inr r1
        else greedy_fallback (map (\<lambda>a. stop_objs h ! a) ss) cm tm b d 0) = Inr r2"
  | (nodrop) h2 r2 ss1 cm1 tm1 where "2 \<le> length ss" "\<not> truthy r2" "stop_objs h2 = stop_objs h"
      "drop_lowest_priority h2 ss cm tm = (h', None, ss1, cm1, tm1)"
      "vars' = (ss1, cm1, tm1, dropped, r2)"
  | (dropped) h2 h3 r2 x ss1 cm1 tm1 r1 where "2 \<le> length ss" "\<not> truthy r2"
      "stop_objs h2 = stop_objs h"
      "drop_lowest_priority h2 ss cm tm = (h3, Some x, ss1, cm1, tm1)"
      "solve_with_drops k e b d h3 (ss1, cm1, tm1, dropped @ [x], r2) = (h', Inr vars')"
      "solve_vrptw (cp_sat e) (map (\<lambda>a. stop_objs h ! a) ss) cm tm b d 0 = Inr r1"
      "h2 = (if truthy r1 then log_call SOLVE_VRPTW h
             else log_call GREEDY_FALLBACK (log_call SOLVE_VRPTW h))"
proof (cases "length ss < 2")
  case True
  with assms show ?thesis using stop by simp
next
  case False
  then have two: "2 \<le> length ss" by simp
  let ?dumped = "map (\<lambda>a. stop_objs h ! a) ss"
  let ?h1 = "log_call SOLVE_VRPTW h"
  obtain r1 where r1: "solve_vrptw (cp_sat e) ?dumped cm tm b d 0 = Inr r1"
    using assms False by (cases "solve_vrptw (cp_sat e) ?dumped cm tm b d 0") (auto simp: Let_def)
  let ?h2 = "if truthy r1 then ?h1 else log_call GREEDY_FALLBACK ?h1"
  let ?g = "if truthy r1 then Inr r1 else greedy_fallback ?dumped cm tm b d 0"
  have h2s: "stop_objs ?h2 = stop_objs h" by simp
  obtain r2 where g: "?g = Inr r2"
    using assms False r1 by (cases ?g) (auto simp: Let_def split: if_splits)
  have src: "solve_vrptw (cp_sat e) ?dumped cm tm b d 0 = Inr r2 \<or>
             greedy_fallback ?dumped cm tm b d 0 = Inr r2"
    using r1 g by (auto split: if_splits)
  have step: "solve_with_drops (Suc k) e b d h (ss, cm, tm, dropped, r) =
        (if truthy r2 then (?h2, Inr (ss, cm, tm, dropped, r2))
         else (case drop_lowest_priority ?h2 ss cm tm of
                 (h3, None, ss1, cm1, tm1) \<Rightarrow> (h3, Inr (ss1, cm1, tm1, dropped, r2))
               | (h3, Some x, ss1, cm1, tm1) \<Rightarrow>
                   solve_with_drops k e b d h3 (ss1, cm1, tm1, dropped @ [x], r2)))"
    using False r1 g by (simp add: Let_def)
  show ?thesis
  proof (cases "truthy r2")
    case True
    with assms step have eq: "h' = ?h2" "vars' = (ss, cm, tm, dropped, r2)" by simp_all
    have "stop_objs h' = stop_objs h" using eq(1) h2s by simp
    then show ?thesis using found [OF two True eq(2) _ src r1 eq(1) g] by simp
  next
    case nt: False
    obtain h3 dr ss1 cm1 tm1 where
      dl: "drop_lowest_priority ?h2 ss cm tm = (h3, dr, ss1, cm1, tm1)"
      by (metis prod_cases5)
    show ?thesis
    proof (cases dr)
      case None
      with assms step nt dl have "h' = h3" "vars' = (ss1, cm1, tm1, dropped, r2)" by simp_all
      then show ?thesis using nodrop [OF two nt h2s] dl None by simp
    next
      case (Some x)
      with assms step nt dl
      have rec: "solve_with_drops k e b d h3 (ss1, cm1, tm1, dropped @ [x], r2) = (h', Inr vars')"
        by simp
      have dl': "drop_lowest_priority ?h2 ss cm tm = (h3, Some x, ss1, cm1, tm1)"
        using dl Some by simp
      show ?thesis using dropped [OF two nt h2s dl' rec r1] by simp
    qed
  qed
qed

lemma solve_with_drops_priority:
  "solve_with_drops k e b d h (ss, cm, tm, dropped, r) = (h', Inr (ss', cm', tm', dropped', r')) \<Longrightarrow>
   \<forall>a\<in>set ss. a < length (stop_objs h) \<Longrightarrow>
   \<exists>new. dropped' = dropped @ new \<and>
     set (tl ss) \<subseteq> set (tl ss') \<union> set new \<and>
     set (tl ss') \<subseteq> set (tl ss) \<and>
     (\<forall>a\<in>set new. status (stop_objs h' ! a) = DROPPED) \<and>
     ((\<exists>a\<in>set new. priority (stop_objs h ! a) \<noteq> NICE_TO_HAVE) \<longrightarrow>
        (\<forall>a\<in>set (tl ss'). priority (stop_objs h ! a) \<noteq> NICE_TO_HAVE)) \<and>
     (\<forall>a. priority (stop_objs h' ! a) = priority (stop_objs h ! a)) \<and>
     (\<forall>a. status (stop_objs h ! a) = DROPPED \<longrightarrow> status (stop_objs h' ! a) = DROPPED)"
proof (induction k arbitrary: h ss cm tm dropped r)
  case 0
  then show ?case by simp
next
  case (Suc k)
  from Suc.prems(1) show ?case
  proof (cases rule: solve_with_drops_cases)
    case stop
    then show ?thesis by simp
  next
    case (found r2)
    then show ?thesis by simp
  next
    case (nodrop h2 r2 ss1 cm1 tm1)
    then show ?thesis by (simp add: drop_lowest_priority_def split: option.splits)
  next
    case (dropped h2 h3 r2 x ss1 cm1 tm1)
    from drop_lowest_priority_Some [OF dropped(4)] obtain i where
      i: "1 \<le> i" "i < length ss" "x = ss ! i" "ss1 = remove_at i ss"
      and h3: "h3 = set_stop x mark_dropped h2"
      and nn: "priority (stop_objs h2 ! x) \<noteq> NICE_TO_HAVE \<longrightarrow>
                (\<forall>a\<in>set (tl ss). priority (stop_objs h2 ! a) \<noteq> NICE_TO_HAVE)"
      by blast
    have xin: "x \<in> set ss" using i by simp
    have xv: "x < length (stop_objs h2)" using xin Suc.prems(2) dropped(3) by simp
    have p3: "\<And>a. priority (stop_objs h3 ! a) = priority (stop_objs h ! a)"
      using h3 dropped(3) by simp
    have s3: "\<And>a. status (stop_objs h ! a) = DROPPED \<Longrightarrow> status (stop_objs h3 ! a) = DROPPED"
      using h3 dropped(3) set_stop_mark_status [of h2] by simp
    have x3: "status (stop_objs h3 ! x) = DROPPED"
      using h3 xv by (simp add: set_stop_mark_self)
    have len3: "length (stop_objs h3) = length (stop_objs h)"
      using h3 dropped(3) by simp
    have sub: "set ss1 \<subseteq> set ss" using i(4) set_remove_at by simp
    have valid1: "\<forall>a\<in>set ss1. a < length (stop_objs h3)"
      using sub Suc.prems(2) len3 by auto
    have tl1: "tl ss1 = remove_at (i - 1) (tl ss)" using i by (simp add: tl_remove_at)
    have tlsub: "set (tl ss1) \<subseteq> set (tl ss)" using tl1 set_remove_at by simp
    have "i - 1 < length (tl ss)" using i by simp
    then have "set (tl ss) \<subseteq> insert (tl ss ! (i - 1)) (set (remove_at (i - 1) (tl ss)))"
      by (rule set_remove_at_cover)
    moreover have "tl ss ! (i - 1) = x" using i by (simp add: nth_tl)
    ultimately have cover: "set (tl ss) \<subseteq> insert x (set (tl ss1))" using tl1 by simp
    from Suc.IH [OF dropped(5) valid1] obtain new1 where
      d1: "dropped' = (dropped @ [x]) @ new1"
      and c1: "set (tl ss1) \<subseteq> set (tl ss') \<union> set new1"
      and c2: "set (tl ss') \<subseteq> set (tl ss1)"
      and st1: "\<forall>a\<in>set new1. status (stop_objs h' ! a) = DROPPED"
      and nn1: "(\<exists>a\<in>set new1. priority (stop_objs h3 ! a) \<noteq> NICE_TO_HAVE) \<longrightarrow>
                (\<forall>a\<in>set (tl ss'). priority (stop_objs h3 ! a) \<noteq> NICE_TO_HAVE)"
      and pr1: "\<forall>a. priority (stop_objs h' ! a) = priority (stop_objs h3 ! a)"
      and ss1: "\<forall>a. status (stop_objs h3 ! a) = DROPPED \<longrightarrow> status (stop_objs h' ! a) = DROPPED"
      by blast
    let ?new = "x # new1"
    have A: "dropped' = dropped @ ?new" using d1 by simp
    have B: "set (tl ss) \<subseteq> set (tl ss') \<union> set ?new" using cover c1 by auto
    have C: "set (tl ss') \<subseteq> set (tl ss)" using c2 tlsub by auto
    have D: "\<forall>a\<in>set ?new. status (stop_objs h' ! a) = DROPPED" using st1 x3 ss1 by auto
    have E: "(\<exists>a\<in>set ?new. priority (stop_objs h ! a) \<noteq> NICE_TO_HAVE) \<longrightarrow>
             (\<forall>a\<in>set (tl ss'). priority (stop_objs h ! a) \<noteq> NICE_TO_HAVE)"
    proof
      assume "\<exists>a\<in>set ?new. priority (stop_objs h ! a) \<noteq> NICE_TO_HAVE"
      then consider "priority (stop_objs h ! x) \<noteq> NICE_TO_HAVE"
        | "\<exists>a\<in>set new1. priority (stop_objs h ! a) \<noteq> NICE_TO_HAVE" by auto
      then show "\<forall>a\<in>set (tl ss'). priority (stop_objs h ! a) \<noteq> NICE_TO_HAVE"
      proof cases
        case 1
        then have "\<forall>a\<in>set (tl ss). priority (stop_objs h ! a) \<noteq> NICE_TO_HAVE"
          using nn dropped(3) by simp
        then show ?thesis using C by blast
      next
        case 2
        then show ?thesis using nn1 p3 by simp
      qed
    qed
    have F: "\<forall>a. priority (stop_objs h' ! a) = priority (stop_objs h ! a)" using pr1 p3 by simp
    have G: "\<forall>a. status (stop_objs h ! a) = DROPPED \<longrightarrow> status (stop_objs h' ! a) = DROPPED"
      using ss1 s3 by blast
    show ?thesis using A B C D E F G by blast
  qed
qed

lemma reflect_drop_fields:
  "priority (reflect_drop dv s) = priority s"
  "status s = DROPPED \<Longrightarrow> status (reflect_drop dv s) = DROPPED"
  by (simp_all add: reflect_drop_def split: option.splits)

lemma already_dropped_log_call [simp]: "already_dropped (log_call c h) itin = already_dropped h itin"
  by (simp add: already_dropped_def)

lemma zip_map_self: "(a, s) \<in> set (zip xs (map f xs)) \<Longrightarrow> s = f a"
  by (induction xs) auto

section \<open>Legs of a route\<close>

lemma mx_get_Inr: "mx_get m i j = Inr c \<Longrightarrow> c = m ! i ! j"
  by (auto simp: mx_get_def split: if_splits)

lemma route_leg_fields [simp]:
  "costCents (route_leg s_from s_to detail dm c t) = c"
  "durationSec (route_leg s_from s_to detail dm c t) = t"
  by (simp_all add: route_leg_def)

lemma build_legs_edges:
  "build_legs rs cm tm details dm route (acc, c0, t0) = Inr (ls, tc, td) \<Longrightarrow>
   map costCents ls = map costCents acc @ map (\<lambda>(a, b). cm ! a ! b) (edges route) \<and>
   map durationSec ls = map durationSec acc @ map (\<lambda>(a, b). tm ! a ! b) (edges route) \<and>
   tc = c0 + sum_list (map (\<lambda>(a, b). cm ! a ! b) (edges route)) \<and>
   td = t0 + sum_list (map (\<lambda>(a, b). tm ! a ! b) (edges route))"
proof (induction route arbitrary: acc c0 t0 rule: induct_list012)
  case 1
  then show ?case by simp
next
  case (2 x)
  then show ?case by simp
next
  case (3 a b rest)
  from "3.prems" obtain c t s_from s_to where
    c: "mx_get cm a b = Inr c" and t: "mx_get tm a b = Inr t"
    and rec: "build_legs rs cm tm details dm (b # rest)
       (acc @ [route_leg s_from s_to (details (a, b)) dm c t], c0 + c, t0 + t) = Inr (ls, tc, td)"
    by (auto split: sum.splits)
  from "3.IH"(2) [OF rec] mx_get_Inr [OF c] mx_get_Inr [OF t] show ?case by simp
qed

lemma path_sum_edges: "path_sum m route = sum_list (map (\<lambda>(a, b). m ! a ! b) (edges route))"
  by (induction m route rule: path_sum.induct) simp_all

lemma apply_friction_costs:
  "map costCents (apply_friction ls fr) = map costCents ls \<and>
   map durationSec (apply_friction ls fr) = map durationSec ls"
proof (induction ls arbitrary: fr)
  case Nil
  then show ?case by (simp add: apply_friction_def)
next
  case (Cons l ls)
  show ?case
  proof (cases fr)
    case Nil
    then show ?thesis by (simp add: apply_friction_def)
  next
    case (Cons f fr')
    then show ?thesis using Cons.IH [of fr'] by (simp add: apply_friction_def)
  qed
qed

lemma fetch_alternatives_shape:
  assumes "fetch_alternatives e ss modes = (cm, tm, details)"
  shows "square (length ss) cm" "square (length ss) tm"
    "(\<forall>i j a b m. 0 \<le> ld_costCents (directions e i j a b m)) \<Longrightarrow> nonneg cm"
  using assms
  by (auto simp: fetch_alternatives_def Let_def square_def list_all_length nonneg_def)

section \<open>Routes of the complete search\<close>

lemma exactly_one_ex: "exactly_one (map f xs) \<Longrightarrow> \<exists>j\<in>set xs. f j"
proof -
  assume "exactly_one (map f xs)"
  then have "filter f xs \<noteq> []"
    by (auto simp: exactly_one_def filter_map comp_def)
  then show ?thesis
    by (simp add: filter_empty_conv)
qed

lemma exactly_one_unique:
  assumes "exactly_one (map f xs)" "distinct xs" "a \<in> set xs" "b \<in> set xs" "f a" "f b"
  shows "a = b"
proof -
  have "length (filter f xs) = 1"
    using assms(1) by (simp add: exactly_one_def filter_map comp_def)
  then obtain c where c: "filter f xs = [c]"
    by (cases "filter f xs") auto
  have "a \<in> set (filter f xs)" "b \<in> set (filter f xs)" using assms by simp_all
  then show ?thesis unfolding c by simp
qed

lemma others_set: "set (others n i) = {j. j < n \<and> i \<noteq> j}"
  by (auto simp: others_def)

lemma distinct_others: "distinct (others n i)"
  by (simp add: others_def)

lemma model_successor:
  assumes m: "cp_model_holds n cm tm budget deadline start x t" and i: "i < n"
  shows "\<exists>j. find (\<lambda>j. i \<noteq> j \<and> x i j) [0..<n] = Some j \<and> selected n x i j"
proof -
  have "exactly_one (map (\<lambda>j. x i j) (others n i))"
    using m i by (simp add: cp_model_holds_def)
  then obtain j where j: "j \<in> set (others n i)" "x i j" using exactly_one_ex by blast
  then have "\<exists>k\<in>set [0..<n]. i \<noteq> k \<and> x i k" by (auto simp: others_set)
  then obtain k where k: "find (\<lambda>j. i \<noteq> j \<and> x i j) [0..<n] = Some k"
    by (cases "find (\<lambda>j. i \<noteq> j \<and> x i j) [0..<n]") (auto simp: find_None_iff)
  from find_in_set [OF k] have "k < n" "i \<noteq> k" "x i k" by auto
  then show ?thesis using k i by (auto simp: selected_def)
qed

lemma model_predecessor_unique:
  assumes m: "cp_model_holds n cm tm budget deadline start x t"
    and a: "selected n x a j" and b: "selected n x b j"
  shows "a = b"
proof -
  have j: "j < n" using a by (simp add: selected_def)
  then have "exactly_one (map (\<lambda>k. x k j) (others n j))"
    using m by (simp add: cp_model_holds_def)
  moreover have "a \<in> set (others n j)" "b \<in> set (others n j)"
    using a b by (auto simp: others_set selected_def)
  moreover have "x a j" "x b j" using a b by (simp_all add: selected_def)
  ultimately show ?thesis using exactly_one_unique [OF _ distinct_others] by blast
qed

lemma chain_snoc: "xs \<noteq> [] \<Longrightarrow> chain R (xs @ [b]) = (chain R xs \<and> R (last xs) b)"
  by (induction R xs rule: chain.induct) auto

lemma chain_nth: "chain R xs \<Longrightarrow> Suc k < length xs \<Longrightarrow> R (xs ! k) (xs ! Suc k)"
proof (induction R xs arbitrary: k rule: chain.induct)
  case (1 R a b rest)
  then show ?case by (cases k) auto
qed auto

lemma walk_step:
  assumes m: "cp_model_holds n cm tm budget deadline start x t"
    and inv: "route \<noteq> []" "hd route = start" "last route = cur" "distinct route"
      "set route \<subseteq> {..<n}" "chain (selected n x) route"
  shows "\<exists>j. find (\<lambda>j. cur \<noteq> j \<and> x cur j) [0..<n] = Some j \<and> selected n x cur j \<and>
             (j \<noteq> start \<longrightarrow> j \<notin> set route)"
proof -
  have curn: "cur < n" using inv(1,3,5) last_in_set by fastforce
  from model_successor [OF m curn] obtain j where
    f: "find (\<lambda>j. cur \<noteq> j \<and> x cur j) [0..<n] = Some j" and sel: "selected n x cur j"
    by blast
  have jnew: "j \<notin> set route" if ns: "j \<noteq> start"
  proof
    assume "j \<in> set route"
    then obtain k where k: "k < length route" "route ! k = j" by (auto simp: in_set_conv_nth)
    have "route ! 0 = start" using inv(1,2) by (simp add: hd_conv_nth)
    with k ns have "k \<noteq> 0" by metis
    then obtain k' where k': "k = Suc k'" by (cases k) auto
    have sk: "Suc k' < length route" using k k' by simp
    have "selected n x (route ! k') (route ! Suc k')"
      using inv(6) sk by (rule chain_nth)
    then have "selected n x (route ! k') j" using k k' by simp
    then have "route ! k' = cur"
      using sel by (rule model_predecessor_unique [OF m])
    moreover have "cur = route ! (length route - 1)"
      using inv(1,3) by (simp add: last_conv_nth)
    ultimately have "k' = length route - 1"
      using inv(4) k k' by (simp add: nth_eq_iff_index_eq)
    then show False using k k' by simp
  qed
  then show ?thesis using f sel by blast
qed

lemma walk_route_total:
  assumes m: "cp_model_holds n cm tm budget deadline start x t"
  shows "route \<noteq> [] \<Longrightarrow> hd route = start \<Longrightarrow> last route = cur \<Longrightarrow> distinct route \<Longrightarrow>
         set route \<subseteq> {..<n} \<Longrightarrow> chain (selected n x) route \<Longrightarrow>
         n + 1 \<le> fuel + length route \<Longrightarrow>
         \<exists>r. walk_route fuel x n start cur nxt route = Inr r \<and>
           r \<noteq> [] \<and> hd r = start \<and> distinct r \<and> set r \<subseteq> {..<n} \<and> chain (selected n x) r"
proof (induction fuel arbitrary: cur nxt route)
  case 0
  have "card (set route) \<le> card {..<n}" using "0.prems"(5) by (intro card_mono) auto
  then have "length route \<le> n" using "0.prems"(4) by (simp add: distinct_card)
  with "0.prems"(7) show ?case by simp
next
  case (Suc fuel)
  from walk_step [OF m Suc.prems(1-6)] obtain j where
    f: "find (\<lambda>j. cur \<noteq> j \<and> x cur j) [0..<n] = Some j" and sel: "selected n x cur j"
    and jnew: "j \<noteq> start \<Longrightarrow> j \<notin> set route"
    by blast
  show ?case
  proof (cases "j = start")
    case True
    with Suc.prems f show ?thesis by simp
  next
    case False
    have jn: "j < n" using sel by (simp add: selected_def)
    have "\<exists>r. walk_route fuel x n start j (Some j) (route @ [j]) = Inr r \<and>
           r \<noteq> [] \<and> hd r = start \<and> distinct r \<and> set r \<subseteq> {..<n} \<and> chain (selected n x) r"
      using Suc.prems jnew [OF False] jn sel
      by (intro Suc.IH) (auto simp: chain_snoc)
    then show ?thesis using f False by simp
  qed
qed

lemma elem_le_sum_list:
  fixes ys :: "int list"
  shows "\<forall>y\<in>set ys. 0 \<le> y \<Longrightarrow> y \<in> set ys \<Longrightarrow> y \<le> sum_list ys"
proof (induction ys)
  case Nil
  then show ?case by simp
next
  case (Cons a ys)
  have "0 \<le> sum_list ys" using Cons.prems(1) by (intro sum_list_nonneg) simp
  then show ?case using Cons by auto
qed

lemma nonneg_entry:
  assumes "nonneg cm" "square n cm" "i < n" "j < n"
  shows "0 \<le> cm ! i ! j"
proof -
  have "cm ! i \<in> set cm" using assms(2,3) by (simp add: square_def)
  moreover have "cm ! i ! j \<in> set (cm ! i)"
    using assms(2,3,4) by (simp add: square_def list_all_length)
  ultimately show ?thesis using assms(1) by (auto simp: nonneg_def)
qed

lemma row_cost_nonneg: "nonneg cm \<Longrightarrow> square n cm \<Longrightarrow> i < n \<Longrightarrow> 0 \<le> row_cost n x cm i"
  unfolding row_cost_def
  by (intro sum_list_nonneg) (auto simp: others_set nonneg_entry)

lemma edge_le_row_cost:
  assumes "nonneg cm" "square n cm" "selected n x a b"
  shows "cm ! a ! b \<le> row_cost n x cm a"
proof -
  let ?ys = "map (\<lambda>j. if x a j then cm ! a ! j else 0) (others n a)"
  have a: "a < n" "b \<in> set (others n a)" "x a b"
    using assms(3) by (auto simp: selected_def others_set)
  have "\<forall>y\<in>set ?ys. 0 \<le> y" using assms(1,2) a(1) by (auto simp: others_set nonneg_entry)
  moreover have "cm ! a ! b \<in> set ?ys" using a by force
  ultimately show ?thesis unfolding row_cost_def by (rule elem_le_sum_list)
qed

lemma path_sum_le_rows:
  assumes "nonneg cm" "square n cm"
  shows "chain (selected n x) route \<Longrightarrow>
         path_sum cm route \<le> sum_list (map (row_cost n x cm) (butlast route))"
proof (induction route rule: induct_list012)
  case (3 a b rest)
  have "cm ! a ! b \<le> row_cost n x cm a"
    using assms 3(3) by (intro edge_le_row_cost) simp_all
  moreover have "path_sum cm (b # rest) \<le> sum_list (map (row_cost n x cm) (butlast (b # rest)))"
    using 3 by simp
  ultimately show ?case by simp
qed simp_all

lemma rows_le_total:
  assumes "distinct ys" "set ys \<subseteq> {..<n}" "\<And>i. i < n \<Longrightarrow> (0::int) \<le> g i"
  shows "sum_list (map g ys) \<le> sum_list (map g [0..<n])"
proof -
  have "sum_list (map g ys) = sum g (set ys)"
    using assms(1) by (rule sum_list_distinct_conv_sum_set)
  also have "\<dots> \<le> sum g {..<n}"
    using assms(2,3) by (intro sum_mono2) auto
  also have "\<dots> = sum_list (map g [0..<n])"
    by (simp add: sum_list_distinct_conv_sum_set atLeast0LessThan)
  finally show ?thesis .
qed

lemma model_route_within_budget:
  assumes m: "cp_model_holds n cm tm budget deadline start x t"
    and nn: "nonneg cm" and sq: "square n cm"
    and r: "distinct r" "set r \<subseteq> {..<n}" "chain (selected n x) r"
  shows "path_sum cm r \<le> budget"
proof -
  have "path_sum cm r \<le> sum_list (map (row_cost n x cm) (butlast r))"
    using nn sq r(3) by (rule path_sum_le_rows)
  also have "\<dots> \<le> sum_list (map (row_cost n x cm) [0..<n])"
  proof (rule rows_le_total)
    show "distinct (butlast r)" using r(1) by (rule distinct_butlast)
    show "set (butlast r) \<subseteq> {..<n}" using r(2) in_set_butlastD by fastforce
    show "\<And>i. i < n \<Longrightarrow> 0 \<le> row_cost n x cm i" using nn sq by (rule row_cost_nonneg)
  qed
  also have "\<dots> \<le> budget" using m by (simp add: cp_model_holds_def row_cost_def [abs_def])
  finally show ?thesis .
qed

lemma solve_vrptw_route:
  assumes two: "2 \<le> length ss"
    and sound: "cp_sound oracle (length ss) cm tm budget deadline 0"
    and nn: "nonneg cm" and sq: "square (length ss) cm"
    and res: "solve_vrptw oracle ss cm tm budget deadline 0 = Inr (Some r)"
  shows "r \<noteq> [] \<and> set r \<subseteq> {..<length ss} \<and> path_sum cm r \<le> budget"
proof -
  let ?n = "length ss"
  from res two obtain x t where o: "oracle ?n cm tm budget deadline 0 = Some (x, t)"
    and w: "walk_route ?n x ?n 0 0 None [0] = Inr r"
    by (auto simp: solve_vrptw_def Let_def split: if_splits option.splits sum.splits)
  have m: "cp_model_holds ?n cm tm budget deadline 0 x t"
    using sound o by (simp add: cp_sound_def)
  have "\<exists>r'. walk_route ?n x ?n 0 0 None [0] = Inr r' \<and>
           r' \<noteq> [] \<and> hd r' = 0 \<and> distinct r' \<and> set r' \<subseteq> {..<?n} \<and> chain (selected ?n x) r'"
    using two by (intro walk_route_total [OF m]) auto
  with w have p: "r \<noteq> []" "distinct r" "set r \<subseteq> {..<?n}" "chain (selected ?n x) r" by auto
  then show ?thesis using model_route_within_budget [OF m nn sq] by simp
qed

lemma cp_model_unsat:
  assumes n: "2 \<le> n" "start < n"
    and pos: "\<forall>i\<in>set (others n start). 0 < tm ! i ! start"
  shows "\<not> cp_model_holds n cm tm budget deadline start x t"
proof
  assume h: "cp_model_holds n cm tm budget deadline start x t"
  then have "exactly_one (map (\<lambda>j. x j start) (others n start))"
    using n by (simp add: cp_model_holds_def)
  then obtain j where j: "j \<in> set (others n start)" "x j start"
    using exactly_one_ex by blast
  then have jn: "j < n" "j \<noteq> start" by (auto simp: others_def)
  then have sj: "start \<in> set (others n j)" using n by (auto simp: others_def)
  have "\<forall>i\<in>set [0..<n]. \<forall>k\<in>set (others n i). x i k \<longrightarrow> t i + tm ! i ! k \<le> t k"
    using h by (simp add: cp_model_holds_def)
  moreover have "j \<in> set [0..<n]" using jn by simp
  ultimately have "t j + tm ! j ! start \<le> t start"
    using sj j(2) by blast
  moreover have "0 \<le> t j" using h jn by (simp add: cp_model_holds_def)
  moreover have "t start = 0" using h by (simp add: cp_model_holds_def)
  moreover have "0 < tm ! j ! start" using pos j by blast
  ultimately show False by linarith
qed

section \<open>Which solver answers in the loop\<close>

lemma greedy_fallback_length:
  "length xs = length ys \<Longrightarrow>
   greedy_fallback xs cm tm b d s = greedy_fallback ys cm tm b d s"
  by (simp add: greedy_fallback_def)

lemma solve_vrptw_length:
  "length xs = length ys \<Longrightarrow>
   solve_vrptw oracle xs cm tm b d s = solve_vrptw oracle ys cm tm b d s"
  by (simp add: solve_vrptw_def)

lemma solve_vrptw_None:
  assumes r: "solve_vrptw oracle ss cm tm b d 0 = Inr r1"
    and two: "2 \<le> length ss"
    and pos: "\<forall>i. 1 \<le> i \<and> i < length ss \<longrightarrow> 0 < tm ! i ! 0"
    and sound: "cp_sound oracle (length ss) cm tm b d 0"
  shows "r1 = None"
proof (cases "oracle (length ss) cm tm b d 0")
  case None
  with r two show ?thesis by (auto simp: solve_vrptw_def Let_def split: if_splits)
next
  case (Some a)
  obtain x t where "a = (x, t)" by (cases a)
  with Some sound have "cp_model_holds (length ss) cm tm b d 0 x t"
    by (simp add: cp_sound_def)
  moreover have "\<forall>i\<in>set (others (length ss) 0). 0 < tm ! i ! 0"
    using pos by (auto simp: others_set)
  moreover have "0 < length ss" using two by (cases ss) simp_all
  ultimately show ?thesis using cp_model_unsat [OF two] by blast
qed

lemma length_remove_at: "d < length xs \<Longrightarrow> length (remove_at d xs) = length xs - 1"
  by (simp add: remove_at_def)

lemma nth_remove_at:
  "d < length xs \<Longrightarrow> i < length xs - 1 \<Longrightarrow>
   remove_at d xs ! i = (if i < d then xs ! i else xs ! Suc i)"
  by (auto simp: remove_at_def nth_append min_def)

lemma remove_at_nth0: "1 \<le> d \<Longrightarrow> remove_at d xs ! 0 = xs ! 0"
  by (cases xs; cases d) (simp_all add: remove_at_def)

lemma shrink_pos:
  assumes pos: "\<forall>i. 1 \<le> i \<and> i < length tm \<longrightarrow> 0 < tm ! i ! 0"
    and d: "1 \<le> d" "d < length tm"
  shows "\<forall>i. 1 \<le> i \<and> i < length (shrink d tm) \<longrightarrow> 0 < shrink d tm ! i ! 0"
proof (intro allI impI)
  fix i assume i: "1 \<le> i \<and> i < length (shrink d tm)"
  then have il: "i < length tm - 1" using d by (simp add: shrink_def length_remove_at)
  then have il': "i < length (remove_at d tm)" using d by (simp add: length_remove_at)
  have "shrink d tm ! i ! 0 = remove_at d (remove_at d tm ! i) ! 0"
    using il' by (simp add: shrink_def)
  also have "\<dots> = remove_at d tm ! i ! 0" using d by (simp add: remove_at_nth0)
  also have "\<dots> = (if i < d then tm ! i else tm ! Suc i) ! 0"
    using d il by (simp add: nth_remove_at)
  finally show "0 < shrink d tm ! i ! 0" using pos i il by auto
qed

lemma rounds_Suc: "[SOLVE_VRPTW, GREEDY_FALLBACK] @ rounds j = rounds (Suc j)"
  by (simp add: rounds_def)

lemma solve_with_drops_greedy:
  "solve_with_drops k e b d h (ss, cm, tm, dropped, r) = (h', Inr (ss', cm', tm', dropped', r')) \<Longrightarrow>
   truthy r' \<Longrightarrow> \<not> truthy r \<Longrightarrow> length tm = length ss \<Longrightarrow>
   \<forall>i. 1 \<le> i \<and> i < length tm \<longrightarrow> 0 < tm ! i ! 0 \<Longrightarrow>
   \<forall>n cm tm. cp_sound (cp_sat e) n cm tm b d 0 \<Longrightarrow>
   \<exists>j>0. calls h' = calls h @ rounds j \<and>
     solve_vrptw (cp_sat e) ss' cm' tm' b d 0 = Inr None \<and>
     greedy_fallback ss' cm' tm' b d 0 = Inr r'"
proof (induction k arbitrary: h ss cm tm dropped r)
  case 0
  then show ?case by simp
next
  case (Suc k)
  let ?dumped = "map (\<lambda>a. stop_objs h ! a) ss"
  have none: "r1 = None"
    if "solve_vrptw (cp_sat e) ?dumped cm tm b d 0 = Inr r1" "2 \<le> length ss" for r1
    using that Suc.prems(4,5,6) by (intro solve_vrptw_None [of "cp_sat e" ?dumped cm tm b d]) auto
  from Suc.prems(1) show ?case
  proof (cases rule: solve_with_drops_cases)
    case stop
    with Suc.prems(2,3) show ?thesis by simp
  next
    case (found r2 r1)
    have r1: "r1 = None" using found(6,1) by (rule none)
    then have "calls h' = calls h @ rounds 1" using found(7) by (simp add: truthy_def rounds_def)
    moreover have "solve_vrptw (cp_sat e) ss' cm' tm' b d 0 = Inr None"
      using found(3,6) r1 solve_vrptw_length [of ss ?dumped "cp_sat e"] by simp
    moreover have "greedy_fallback ss' cm' tm' b d 0 = Inr r'"
      using found(3,8) r1 greedy_fallback_length [of ss ?dumped] by (simp add: truthy_def)
    ultimately show ?thesis by blast
  next
    case (nodrop h2 r2 ss1 cm1 tm1)
    with Suc.prems(2) show ?thesis by simp
  next
    case (dropped h2 h3 r2 x ss1 cm1 tm1 r1)
    have r1: "r1 = None" using dropped(6,1) by (rule none)
    then have c2: "calls h2 = calls h @ [SOLVE_VRPTW, GREEDY_FALLBACK]"
      using dropped(7) by (simp add: truthy_def)
    have c3: "calls h3 = calls h2" using drop_lowest_priority_frame(3) [OF dropped(4)] .
    from drop_lowest_priority_Some [OF dropped(4)] obtain i where
      i: "1 \<le> i" "i < length ss" "ss1 = remove_at i ss" "tm1 = shrink i tm"
      by blast
    have len: "length tm1 = length ss1"
      using i Suc.prems(4) by (simp add: shrink_def length_remove_at)
    have pos: "\<forall>j. 1 \<le> j \<and> j < length tm1 \<longrightarrow> 0 < tm1 ! j ! 0"
      unfolding i(4) using Suc.prems(5) i(1) i(2) Suc.prems(4) by (intro shrink_pos) simp_all
    from Suc.IH [OF dropped(5) Suc.prems(2) dropped(2) len pos Suc.prems(6)]
    obtain j where j: "0 < j" "calls h' = calls h3 @ rounds j"
      "solve_vrptw (cp_sat e) ss' cm' tm' b d 0 = Inr None"
      "greedy_fallback ss' cm' tm' b d 0 = Inr r'"
      by blast
    have "calls h' = calls h @ rounds (Suc j)"
      using j(2) c2 c3 rounds_Suc [of j] by simp
    then show ?thesis using j(3,4) by blast
  qed
qed

lemma replan_all_rounds_greedy:
  assumes ok: "replan_itinerary e h req event = (h', Inr res)"
    and nd: "\<not> demo_bypass e h req event"
    and pos: "\<forall>i\<in>set (others (length (fst (snd (fanout e h req event)))) 0).
                0 < fst (snd (fanout e h req event)) ! i ! 0"
    and sound: "\<forall>n cm tm b d. cp_sound (cp_sat e) n cm tm b d 0"
  shows "\<exists>j (rs::nat list) c_mx t_mx route. 0 < j \<and>
       calls h' = calls h @ FETCH_ALTERNATIVES # rounds j @ [PREDICT_FRICTION] \<and>
       solve_vrptw (cp_sat e) rs c_mx t_mx (budgetCents (user (itin_objs h ! req)))
         (deadline_budget e (returnDeadline (user (itin_objs h ! req)))) 0 = Inr None \<and>
       greedy_fallback rs c_mx t_mx (budgetCents (user (itin_objs h ! req)))
         (deadline_budget e (returnDeadline (user (itin_objs h ! req)))) 0 = Inr (Some route) \<and>
       map costCents (legs (itinerary res)) = map (\<lambda>(a, b). c_mx ! a ! b) (edges route) \<and>
       map durationSec (legs (itinerary res)) = map (\<lambda>(a, b). t_mx ! a ! b) (edges route)"
proof -
  obtain h1 itin where dc: "deep_copy h req = (h1, itin)" by (metis surj_pair)
  note fr = deep_copy_frame [OF dc]
  let ?h2 = "apply_disruption h1 itin event"
  let ?h3 = "log_call FETCH_ALTERNATIVES ?h2"
  let ?active = "active_refs ?h2 itin"
  let ?B = "budgetCents (user (itin_objs h ! req))"
  let ?D = "deadline_budget e (returnDeadline (user (itin_objs h ! req)))"
  have w: "working h req = itin" "stage1 h req event = ?h2"
    using dc by (simp_all add: working_def stage1_def)
  from ok dc show ?thesis
  proof (cases rule: replan_success_cases)
    case demo
    with nd show ?thesis by simp
  next
    case (full h4 cm tm details vars)
    obtain ss' cm' tm' dropped' r' where vars: "vars = (ss', cm', tm', dropped', r')"
      by (metis prod_cases5)
    have fan: "fanout e h req event = (cm, tm, details)"
      using full(3) by (simp add: fanout_def w)
    have len: "length tm = length ?active"
      using fetch_alternatives_shape(2) [OF full(3)] by (simp add: square_def)
    have pos': "\<forall>i. 1 \<le> i \<and> i < length tm \<longrightarrow> 0 < tm ! i ! 0"
      using pos fan by (auto simp: others_set)
    have tr: "truthy r'" using full(5) vars by simp
    have sound': "\<forall>n cm tm. cp_sound (cp_sat e) n cm tm ?B ?D 0" using sound by blast
    have nt: "\<not> truthy None" by (simp add: truthy_def)
    from solve_with_drops_greedy [OF full(4) [unfolded vars] tr nt len pos' sound']
    obtain j where j: "0 < j" "calls h4 = calls ?h3 @ rounds j"
      and sv: "solve_vrptw (cp_sat e) ss' cm' tm' ?B ?D 0 = Inr None"
      and gr: "greedy_fallback ss' cm' tm' ?B ?D 0 = Inr r'"
      by blast
    from tr obtain route where route: "r' = Some route"
      by (cases r') (simp_all add: truthy_def)
    from assemble_success [OF full(6) [unfolded vars]] obtain legs0 tc td where
      bl: "build_legs (map (\<lambda>a. stop_objs h4 ! a) ss') cm' tm' details
             (case preferredModes (user (itin_objs h4 ! itin)) of [] \<Rightarrow> WALKING | m0 # _ \<Rightarrow> m0)
             (case r' of None \<Rightarrow> [] | Some x \<Rightarrow> x) ([], 0, 0) = Inr (legs0, tc, td)"
      and h': "h' = log_call PREDICT_FRICTION h4"
      and res: "res = response e h4 req itin dropped' r'
                    (apply_friction legs0 (predict_friction e legs0)) tc td"
      by blast
    have c: "calls h' = calls h @ FETCH_ALTERNATIVES # rounds j @ [PREDICT_FRICTION]"
      using h' j(2) fr(2) by simp
    have costs: "map costCents (legs (itinerary res)) = map (\<lambda>(a, b). cm' ! a ! b) (edges route)"
      and durs: "map durationSec (legs (itinerary res)) = map (\<lambda>(a, b). tm' ! a ! b) (edges route)"
      using build_legs_edges [OF bl] res route by (simp_all add: apply_friction_costs)
    have gr': "greedy_fallback ss' cm' tm' ?B ?D 0 = Inr (Some route)" using gr route by simp
    show ?thesis
      by (rule exI [of _ j], rule exI [of _ ss'], rule exI [of _ cm'], rule exI [of _ tm'],
          rule exI [of _ route])
        (simp only: j(1) c sv gr' costs durs simp_thms)
  qed
qed

section \<open>The greedy fallback against the open-path description\<close>

lemma mx_get_square: "square n m \<Longrightarrow> i < n \<Longrightarrow> j < n \<Longrightarrow> mx_get m i j = Inr (m ! i ! j)"
  by (simp add: square_def mx_get_def list_all_length)

lemma arg_min_list_le: "x \<in> set xs \<Longrightarrow> f (arg_min_list f xs) \<le> f x"
proof -
  assume a: "x \<in> set xs"
  then have "xs \<noteq> []" by auto
  then have "f (arg_min_list f xs) = Min (f ` set xs)" by (rule f_arg_min_list_f)
  with a show ?thesis by simp
qed

lemma arg_min_list_drop_head:
  fixes f :: "'a \<Rightarrow> int"
  shows "f j < f j0 \<Longrightarrow> arg_min_list f (j0 # j # xs) = arg_min_list f (j # xs)"
  using arg_min_list_le [of j "j # xs" f] by (simp add: Let_def)

lemma arg_min_list_drop_second:
  fixes f :: "'a \<Rightarrow> int"
  shows "f j0 \<le> f j \<Longrightarrow> arg_min_list f (j0 # j # xs) = arg_min_list f (j0 # xs)"
  by (cases xs) (auto simp: Let_def)

lemma greedy_scan_pick_min:
  assumes "square n cm" "square n tm" "cur < n" "\<forall>j\<in>set js. j < n"
    and "snd st = map_option (\<lambda>j. tm ! cur ! j) (fst st)"
  shows "greedy_scan cm tm budget deadline visited cur cc ct js st =
         Inr (pick (\<lambda>j. tm ! cur ! j)
               ((case fst st of None \<Rightarrow> [] | Some j0 \<Rightarrow> [j0]) @
                filter (\<lambda>j. j \<notin> set visited \<and> cc + cm ! cur ! j \<le> budget \<and>
                             ct + tm ! cur ! j \<le> deadline) js))"
  using assms(4,5)
proof (induction js arbitrary: st)
  case Nil
  then show ?case
    by (cases st) (auto simp: pick_def split: option.splits)
next
  case (Cons j js)
  obtain bj bt where st: "st = (bj, bt)" by (cases st)
  have jn: "j < n" using Cons.prems by simp
  have c: "mx_get cm cur j = Inr (cm ! cur ! j)" using assms jn by (simp add: mx_get_square)
  have t: "mx_get tm cur j = Inr (tm ! cur ! j)" using assms jn by (simp add: mx_get_square)
  have rest: "\<forall>j\<in>set js. j < n" using Cons.prems by simp
  show ?case
  proof (cases bj)
    case None
    with Cons.prems st have bt: "bt = None" by simp
    show ?thesis using None bt st c t Cons.IH [OF rest, of "(Some j, Some (tm ! cur ! j))"]
        Cons.IH [OF rest, of "(None, None)"]
      by (simp)
  next
    case (Some j0)
    with Cons.prems st have bt: "bt = Some (tm ! cur ! j0)" by simp
    show ?thesis using Some bt st c t Cons.IH [OF rest, of "(Some j, Some (tm ! cur ! j))"]
        Cons.IH [OF rest, of "(Some j0, Some (tm ! cur ! j0))"]
      by (auto simp: pick_def arg_min_list_drop_head arg_min_list_drop_second
            simp del: arg_min_list.simps)
  qed
qed


lemma path_sum_snoc: "path \<noteq> [] \<Longrightarrow> path_sum m (path @ [j]) = path_sum m path + m ! last path ! j"
  by (induction m path rule: path_sum.induct) auto

lemma greedy_loop_spec:
  assumes sq: "square n cm" "square n tm"
  shows "route \<noteq> [] \<Longrightarrow> cur = last route \<Longrightarrow> set visited = set route \<Longrightarrow>
         length visited = length route \<Longrightarrow> set route \<subseteq> {..<n} \<Longrightarrow>
         cc = path_sum cm route \<Longrightarrow> ct = path_sum tm route \<Longrightarrow> k = n - length route \<Longrightarrow>
         greedy_loop n cm tm budget deadline visited route cur cc ct =
         Inr (map_option (\<lambda>p. (p, last p, path_sum cm p, path_sum tm p))
                (spec_greedy_extend k n cm tm budget deadline route))"
proof (induction k arbitrary: route cur visited cc ct)
  case 0
  then show ?case by simp
next
  case (Suc k)
  let ?f = "\<lambda>j. tm ! cur ! j"
  let ?cands = "filter (admissible cm tm budget deadline route) [0..<n]"
  have lt: "length visited < n" using Suc.prems by simp
  have curn: "cur < n" using Suc.prems by auto
  have adm: "(\<lambda>j. j \<notin> set visited \<and> cc + cm ! cur ! j \<le> budget \<and> ct + tm ! cur ! j \<le> deadline)
             = admissible cm tm budget deadline route"
    using Suc.prems by (auto simp: admissible_def fun_eq_iff)
  have scan: "greedy_scan cm tm budget deadline visited cur cc ct [0..<n] (None, None) =
              Inr (pick ?f ?cands)"
    using greedy_scan_pick_min [OF sq curn, of "[0..<n]" "(None, None)" budget deadline visited cc ct]
    by (simp add: adm)
  show ?case
  proof (cases ?cands)
    case Nil
    then show ?thesis using lt scan
      by (simp add: pick_def del: greedy_scan.simps)
  next
    case (Cons j js)
    let ?b = "arg_min_list ?f (j # js)"
    have bin: "?b \<in> set ?cands" using arg_min_list_in [of "j # js" ?f] Cons by simp
    then have bn: "?b < n" and badm: "admissible cm tm budget deadline route ?b" by auto
    have bnew: "?b \<notin> set visited" using badm Suc.prems by (simp add: admissible_def)
    have c: "mx_get cm cur ?b = Inr (cm ! cur ! ?b)" using sq curn bn by (simp add: mx_get_square)
    have t: "mx_get tm cur ?b = Inr (tm ! cur ! ?b)" using sq curn bn by (simp add: mx_get_square)
    have IH: "greedy_loop n cm tm budget deadline (List.insert ?b visited) (route @ [?b]) ?b
                (cc + cm ! cur ! ?b) (ct + tm ! cur ! ?b) =
              Inr (map_option (\<lambda>p. (p, last p, path_sum cm p, path_sum tm p))
                (spec_greedy_extend k n cm tm budget deadline (route @ [?b])))"
      using Suc.prems bnew bn by (intro Suc.IH) (auto simp: path_sum_snoc)
    have step: "greedy_loop n cm tm budget deadline visited route cur cc ct =
                greedy_loop n cm tm budget deadline (List.insert ?b visited) (route @ [?b]) ?b
                  (cc + cm ! cur ! ?b) (ct + tm ! cur ! ?b)"
      using lt scan Cons c t
      by (subst greedy_loop.simps) (simp add: pick_def del: greedy_scan.simps greedy_loop.simps arg_min_list.simps)
    show ?thesis using step IH Cons Suc.prems(2) by (simp del: greedy_loop.simps arg_min_list.simps)
  qed
qed

lemma spec_greedy_extend_props:
  "spec_greedy_extend k n cm tm budget deadline path = Some p \<Longrightarrow>
   path \<noteq> [] \<Longrightarrow> set path \<subseteq> {..<n} \<Longrightarrow> distinct path \<Longrightarrow>
   p \<noteq> [] \<and> set p \<subseteq> {..<n} \<and> distinct p \<and> length p = length path + k \<and>
   hd p = hd path \<and>
   (path_sum cm path \<le> budget \<longrightarrow> path_sum cm p \<le> budget) \<and>
   (path_sum tm path \<le> deadline \<longrightarrow> path_sum tm p \<le> deadline)"
proof (induction k arbitrary: path)
  case 0
  then show ?case by simp
next
  case (Suc k)
  let ?f = "\<lambda>j. tm ! last path ! j"
  let ?cands = "filter (admissible cm tm budget deadline path) [0..<n]"
  from Suc.prems(1) obtain j js where cands: "?cands = j # js"
    and rec: "spec_greedy_extend k n cm tm budget deadline (path @ [arg_min_list ?f (j # js)]) = Some p"
    by (auto split: list.splits)
  let ?b = "arg_min_list ?f (j # js)"
  have "?b \<in> set ?cands" using arg_min_list_in [of "j # js" ?f] cands by simp
  then have bn: "?b < n" and badm: "admissible cm tm budget deadline path ?b" by auto
  have "p \<noteq> [] \<and> set p \<subseteq> {..<n} \<and> distinct p \<and> length p = length (path @ [?b]) + k \<and>
        hd p = hd (path @ [?b]) \<and>
        (path_sum cm (path @ [?b]) \<le> budget \<longrightarrow> path_sum cm p \<le> budget) \<and>
        (path_sum tm (path @ [?b]) \<le> deadline \<longrightarrow> path_sum tm p \<le> deadline)"
    using Suc.prems bn badm by (intro Suc.IH [OF rec]) (auto simp: admissible_def)
  then show ?case using Suc.prems(2) badm
    by (simp add: path_sum_snoc admissible_def del: arg_min_list.simps)
qed

lemma greedy_fallback_spec:
  assumes "square (length ss) cost_matrix" "square (length ss) time_matrix"
    and "start_index < length ss"
  shows "greedy_fallback ss cost_matrix time_matrix budget deadline start_index =
         Inr (case spec_greedy_open (length ss) cost_matrix time_matrix budget deadline
                     start_index of
                None \<Rightarrow> None
              | Some path \<Rightarrow>
                  if path_sum cost_matrix path + cost_matrix ! last path ! start_index \<le> budget \<and>
                     path_sum time_matrix path + time_matrix ! last path ! start_index \<le> deadline
                  then Some path else None)"
proof -
  let ?n = "length ss"
  have loop: "greedy_loop ?n cost_matrix time_matrix budget deadline [start_index] [start_index]
                start_index 0 0 =
              Inr (map_option (\<lambda>p. (p, last p, path_sum cost_matrix p, path_sum time_matrix p))
                (spec_greedy_open ?n cost_matrix time_matrix budget deadline start_index))"
    unfolding spec_greedy_open_def
    using assms by (intro greedy_loop_spec) auto
  show ?thesis
  proof (cases "spec_greedy_open ?n cost_matrix time_matrix budget deadline start_index")
    case None
    then show ?thesis using loop by (simp add: greedy_fallback_def)
  next
    case (Some path)
    then have "path \<noteq> []" "set path \<subseteq> {..<?n}"
      using spec_greedy_extend_props [of "?n - 1" ?n cost_matrix time_matrix budget deadline
          "[start_index]" path] assms(3)
      by (auto simp: spec_greedy_open_def)
    then have "last path < ?n" using last_in_set by blast
    then show ?thesis using loop assms Some
      by (simp add: greedy_fallback_def mx_get_square del: greedy_loop.simps)
  qed
qed

lemma spec_greedy_open_budget:
  assumes "spec_greedy_open n cm tm budget deadline start = Some p" "2 \<le> n" "start < n"
  shows "p \<noteq> [] \<and> set p \<subseteq> {..<n} \<and> path_sum cm p \<le> budget"
proof -
  obtain k where k: "n - 1 = Suc k" using assms(2) by (cases "n - 1") auto
  let ?f = "\<lambda>j. tm ! last [start] ! j"
  let ?cands = "filter (admissible cm tm budget deadline [start]) [0..<n]"
  from assms(1) k obtain j js where cands: "?cands = j # js"
    and rec: "spec_greedy_extend k n cm tm budget deadline ([start] @ [arg_min_list ?f (j # js)]) = Some p"
    by (auto simp: spec_greedy_open_def split: list.splits)
  let ?b = "arg_min_list ?f (j # js)"
  have "?b \<in> set ?cands" using arg_min_list_in [of "j # js" ?f] cands by simp
  then have bn: "?b < n" and badm: "admissible cm tm budget deadline [start] ?b" by auto
  have "path_sum cm ([start] @ [?b]) \<le> budget" using badm by (simp add: admissible_def)
  moreover have "distinct ([start] @ [?b])" using badm by (auto simp: admissible_def)
  moreover have "set ([start] @ [?b]) \<subseteq> {..<n}" using bn assms(3) by simp
  ultimately show ?thesis
    using spec_greedy_extend_props [OF rec, of ] by simp
qed

lemma greedy_fallback_route:
  assumes "square (length ss) cm" "square (length ss) tm" "2 \<le> length ss"
    and "greedy_fallback ss cm tm budget deadline 0 = Inr (Some r)"
  shows "r \<noteq> [] \<and> set r \<subseteq> {..<length ss} \<and> path_sum cm r \<le> budget"
proof -
  have z: "0 < length ss" using assms(3) by (cases ss) simp_all
  from assms(4) greedy_fallback_spec [OF assms(1,2) z, of budget deadline]
  have "spec_greedy_open (length ss) cm tm budget deadline 0 = Some r"
    by (auto split: option.splits if_splits)
  then show ?thesis using assms(3) z by (rule spec_greedy_open_budget)
qed

text \<open>
  Claim C2, as amended.  On square matrices, \<open>greedy_fallback\<close> computes the open path
  that the nearest-admissible-neighbour rule builds (\<open>spec_greedy_open\<close>, written from
  the description of the fallback) and returns it exactly when the closing edge from the
  last index back to the start index also fits within the budget and the deadline; it
  returns infeasible when some step has no admissible extension or when that closing edge
  does not fit.
\<close>

theorem greedy_fallback_closure:
  assumes "square (length ss) cost_matrix" "square (length ss) time_matrix"
    and "start_index < length ss"
  shows "greedy_fallback ss cost_matrix time_matrix budget deadline start_index =
         Inr (case spec_greedy_open (length ss) cost_matrix time_matrix budget deadline
                     start_index of
                None \<Rightarrow> None
              | Some path \<Rightarrow>
                  if path_sum cost_matrix path + cost_matrix ! last path ! start_index \<le> budget \<and>
                     path_sum time_matrix path + time_matrix ! last path ! start_index \<le> deadline
                  then Some path else None)"
  using assms by (rule greedy_fallback_spec)

theorem greedy_fallback_closure_witness:
  "square (length [(), ()]) [[0, 5], [100, 0]] \<and> square (length [(), ()]) [[0, 5], [5, 0]] \<and>
   (0::nat) < length [(), ()] \<and>
   greedy_fallback [(), ()] [[0, 5], [100, 0]] [[0, 5], [5, 0]] 200 100 0 = Inr (Some [0, 1])"
proof -
  have a: "square (length [(), ()]) [[0, 5], [100, 0]]" by (simp add: square_def)
  have b: "square (length [(), ()]) [[0, 5], [5, 0]]" by (simp add: square_def)
  have c: "(0::nat) < length [(), ()]" by simp
  have d: "spec_greedy_open (length [(), ()]) [[0, 5], [100, 0]] [[0, 5], [5, 0]] 200 100 0 =
           Some [0, 1]"
    by code_simp
  show ?thesis
    using a b c greedy_fallback_closure [OF a b c, of 200 100] unfolding d by simp
qed

text \<open>
  Claim C2 as stated fails: with two stops, budget 10 and a closing edge of cost 100, every
  step of the loop has an admissible extension and the loop reaches both indices with the
  path \<open>[0, 1]\<close> of cost 5, yet the function returns infeasible.
\<close>

theorem greedy_fallback_open_path_counterexample:
  "greedy_loop 2 [[0, 5], [100, 0]] [[0, 5], [5, 0]] 10 100 [0] [0] 0 0 0 =
     Inr (Some ([0, 1], 1, 5, 5)) \<and>
   greedy_fallback [(), ()] [[0, 5], [100, 0]] [[0, 5], [5, 0]] 10 100 0 = Inr None"
  by code_simp

section \<open>The complete-search solver on instances with a positive way back\<close>

text \<open>
  Claim C10.  With at least two stops and a time matrix whose entries into the start index
  are all positive, no assignment satisfies the constraint model: the one incoming edge
  the flow constraints force at the start node would need an arrival time above zero
  there.  A solver that only reports assignments satisfying the model therefore reports
  none, and \<open>solve_vrptw\<close> returns \<open>None\<close>.  In the pipeline, when the time matrix of the
  fan-out has positive entries into index 0, every round of the solver loop is a call of
  the complete search followed by a call of the greedy fallback, and the legs of the
  returned itinerary are the edges of a route that \<open>greedy_fallback\<close> returned on an
  instance for which \<open>solve_vrptw\<close> returned \<open>None\<close>.
\<close>

theorem solve_vrptw_positive_return_infeasible:
  "(2 \<le> length ss \<and> model_in_range (length ss) cm tm start \<and>
    (\<forall>i\<in>set (others (length ss) start). 0 < tm ! i ! start) \<and>
    cp_sound oracle (length ss) cm tm budget deadline start \<longrightarrow>
    solve_vrptw oracle ss cm tm budget deadline start = Inr None) \<and>
   (replan_itinerary e h req event = (h', Inr res) \<and> \<not> demo_bypass e h req event \<and>
    (\<forall>i\<in>set (others (length (fst (snd (fanout e h req event)))) 0).
        0 < fst (snd (fanout e h req event)) ! i ! 0) \<and>
    (\<forall>n cm tm b d. cp_sound (cp_sat e) n cm tm b d 0) \<longrightarrow>
    (\<exists>j (rs::nat list) c_mx t_mx route. 0 < j \<and>
       calls h' = calls h @ FETCH_ALTERNATIVES # rounds j @ [PREDICT_FRICTION] \<and>
       solve_vrptw (cp_sat e) rs c_mx t_mx (budgetCents (user (itin_objs h ! req)))
         (deadline_budget e (returnDeadline (user (itin_objs h ! req)))) 0 = Inr None \<and>
       greedy_fallback rs c_mx t_mx (budgetCents (user (itin_objs h ! req)))
         (deadline_budget e (returnDeadline (user (itin_objs h ! req)))) 0 = Inr (Some route) \<and>
       map costCents (legs (itinerary res)) = map (\<lambda>(a, b). c_mx ! a ! b) (edges route) \<and>
       map durationSec (legs (itinerary res)) = map (\<lambda>(a, b). t_mx ! a ! b) (edges route)))"
proof (intro conjI impI)
  assume a: "2 \<le> length ss \<and> model_in_range (length ss) cm tm start \<and>
    (\<forall>i\<in>set (others (length ss) start). 0 < tm ! i ! start) \<and>
    cp_sound oracle (length ss) cm tm budget deadline start"
  show "solve_vrptw oracle ss cm tm budget deadline start = Inr None"
  proof (cases "oracle (length ss) cm tm budget deadline start")
    case None
    then show ?thesis using a by (simp add: solve_vrptw_def)
  next
    case (Some p)
    obtain x t where "p = (x, t)" by (cases p)
    with Some a have "cp_model_holds (length ss) cm tm budget deadline start x t"
      by (simp add: cp_sound_def)
    moreover have "start < length ss" using a by (simp add: model_in_range_def)
    ultimately show ?thesis using cp_model_unsat [of "length ss" start tm] a by blast
  qed
next
  assume b: "replan_itinerary e h req event = (h', Inr res) \<and> \<not> demo_bypass e h req event \<and>
    (\<forall>i\<in>set (others (length (fst (snd (fanout e h req event)))) 0).
        0 < fst (snd (fanout e h req event)) ! i ! 0) \<and>
    (\<forall>n cm tm b d. cp_sound (cp_sat e) n cm tm b d 0)"
  then show "\<exists>j (rs::nat list) c_mx t_mx route. 0 < j \<and>
       calls h' = calls h @ FETCH_ALTERNATIVES # rounds j @ [PREDICT_FRICTION] \<and>
       solve_vrptw (cp_sat e) rs c_mx t_mx (budgetCents (user (itin_objs h ! req)))
         (deadline_budget e (returnDeadline (user (itin_objs h ! req)))) 0 = Inr None \<and>
       greedy_fallback rs c_mx t_mx (budgetCents (user (itin_objs h ! req)))
         (deadline_budget e (returnDeadline (user (itin_objs h ! req)))) 0 = Inr (Some route) \<and>
       map costCents (legs (itinerary res)) = map (\<lambda>(a, b). c_mx ! a ! b) (edges route) \<and>
       map durationSec (legs (itinerary res)) = map (\<lambda>(a, b). t_mx ! a ! b) (edges route)"
    by (elim conjE) (rule replan_all_rounds_greedy)
qed

theorem solve_vrptw_positive_return_infeasible_witness:
  "2 \<le> length [(), ()] \<and>
   model_in_range (length [(), ()]) [[0, 300], [300, 0]] [[0, 600], [600, 0]] 0 \<and>
   list_all (\<lambda>i. 0 < [[0, 600], [600, 0::int]] ! i ! 0) (others (length [(), ()]) 0) \<and>
   cp_sound (\<lambda>n cm tm b d s. None) (length [(), ()]) [[0, 300], [300, 0]] [[0, 600], [600, 0]]
     50000 18000 0 \<and>
   solve_vrptw (\<lambda>n cm tm b d s. None) [(), ()] [[0, 300], [300, 0]] [[0, 600], [600, 0]]
     50000 18000 0 = Inr None \<and>
   \<not> demo_bypass ex_env ex_store 0 (mk_event TRANSIT_DELAY) \<and>
   list_all (\<lambda>i. 0 < fst (snd (fanout ex_env ex_store 0 (mk_event TRANSIT_DELAY))) ! i ! 0)
     (others (length (fst (snd (fanout ex_env ex_store 0 (mk_event TRANSIT_DELAY))))) 0) \<and>
   (\<exists>res j (rs::nat list) c_mx t_mx route.
       snd (replan_itinerary ex_env ex_store 0 (mk_event TRANSIT_DELAY)) = Inr res \<and> 0 < j \<and>
       calls (fst (replan_itinerary ex_env ex_store 0 (mk_event TRANSIT_DELAY))) =
         calls ex_store @ FETCH_ALTERNATIVES # rounds j @ [PREDICT_FRICTION] \<and>
       solve_vrptw (cp_sat ex_env) rs c_mx t_mx (budgetCents (user (itin_objs ex_store ! 0)))
         (deadline_budget ex_env (returnDeadline (user (itin_objs ex_store ! 0)))) 0 = Inr None \<and>
       greedy_fallback rs c_mx t_mx (budgetCents (user (itin_objs ex_store ! 0)))
         (deadline_budget ex_env (returnDeadline (user (itin_objs ex_store ! 0)))) 0 =
         Inr (Some route) \<and>
       map costCents (legs (itinerary res)) = map (\<lambda>(a, b). c_mx ! a ! b) (edges route) \<and>
       map durationSec (legs (itinerary res)) = map (\<lambda>(a, b). t_mx ! a ! b) (edges route))"
proof -
  define p where "p = replan_itinerary ex_env ex_store 0 (mk_event TRANSIT_DELAY)"
  have a: "2 \<le> length [(), ()]" by simp
  have b: "model_in_range (length [(), ()]) [[0, 300], [300, 0]] [[0, 600], [600, 0]] 0"
    by (simp add: model_in_range_def others_def upt_rec)
  have c: "\<forall>i\<in>set (others (length [(), ()]) 0). 0 < [[0, 600], [600, 0::int]] ! i ! 0"
    by (simp add: others_def upt_rec)
  have d: "cp_sound (\<lambda>n cm tm b d s. None) (length [(), ()]) [[0, 300], [300, 0]]
             [[0, 600], [600, 0]] 50000 18000 0"
    by (simp add: cp_sound_def)
  have "map_sum id (\<lambda>r. ()) (snd p) = Inr ()" unfolding p_def by code_simp
  then obtain res where res: "snd p = Inr res" by (cases "snd p") auto
  then have eq: "replan_itinerary ex_env ex_store 0 (mk_event TRANSIT_DELAY) = (fst p, Inr res)"
    unfolding p_def by (metis prod.collapse)
  have nd: "\<not> demo_bypass ex_env ex_store 0 (mk_event TRANSIT_DELAY)"
    by (simp add: demo_bypass_def mk_event_def)
  have posl: "list_all (\<lambda>i. 0 < fst (snd (fanout ex_env ex_store 0 (mk_event TRANSIT_DELAY))) ! i ! 0)
     (others (length (fst (snd (fanout ex_env ex_store 0 (mk_event TRANSIT_DELAY))))) 0)"
    by code_simp
  then have pos: "\<forall>i\<in>set (others (length (fst (snd (fanout ex_env ex_store 0
                      (mk_event TRANSIT_DELAY))))) 0).
                0 < fst (snd (fanout ex_env ex_store 0 (mk_event TRANSIT_DELAY))) ! i ! 0"
    by (simp only: list_all_iff)
  have sound: "\<forall>n cm tm b d. cp_sound (cp_sat ex_env) n cm tm b d 0"
    by (simp add: cp_sound_def ex_env_def)
  note T = solve_vrptw_positive_return_infeasible
    [where ss = "[(), ()]" and cm = "[[0, 300], [300, 0]]" and tm = "[[0, 600], [600, 0]]"
       and start = 0 and budget = 50000
       and deadline = 18000 and e = ex_env and h = ex_store and req = 0
       and event = "mk_event TRANSIT_DELAY" and h' = "fst p" and res = res]
  have one: "solve_vrptw (\<lambda>n cm tm b d s. None) [(), ()] [[0, 300], [300, 0]]
               [[0, 600], [600, 0]] 50000 18000 0 = Inr None"
    using T [THEN conjunct1] a b c d by blast
  have two: "\<exists>j (rs::nat list) c_mx t_mx route. 0 < j \<and>
       calls (fst p) = calls ex_store @ FETCH_ALTERNATIVES # rounds j @ [PREDICT_FRICTION] \<and>
       solve_vrptw (cp_sat ex_env) rs c_mx t_mx (budgetCents (user (itin_objs ex_store ! 0)))
         (deadline_budget ex_env (returnDeadline (user (itin_objs ex_store ! 0)))) 0 = Inr None \<and>
       greedy_fallback rs c_mx t_mx (budgetCents (user (itin_objs ex_store ! 0)))
         (deadline_budget ex_env (returnDeadline (user (itin_objs ex_store ! 0)))) 0 =
         Inr (Some route) \<and>
       map costCents (legs (itinerary res)) = map (\<lambda>(a, b). c_mx ! a ! b) (edges route) \<and>
       map durationSec (legs (itinerary res)) = map (\<lambda>(a, b). t_mx ! a ! b) (edges route)"
    using T [THEN conjunct2] eq nd pos sound by blast
  have three: "\<exists>res j (rs::nat list) c_mx t_mx route.
       snd p = Inr res \<and> 0 < j \<and>
       calls (fst p) = calls ex_store @ FETCH_ALTERNATIVES # rounds j @ [PREDICT_FRICTION] \<and>
       solve_vrptw (cp_sat ex_env) rs c_mx t_mx (budgetCents (user (itin_objs ex_store ! 0)))
         (deadline_budget ex_env (returnDeadline (user (itin_objs ex_store ! 0)))) 0 = Inr None \<and>
       greedy_fallback rs c_mx t_mx (budgetCents (user (itin_objs ex_store ! 0)))
         (deadline_budget ex_env (returnDeadline (user (itin_objs ex_store ! 0)))) 0 =
         Inr (Some route) \<and>
       map costCents (legs (itinerary res)) = map (\<lambda>(a, b). c_mx ! a ! b) (edges route) \<and>
       map durationSec (legs (itinerary res)) = map (\<lambda>(a, b). t_mx ! a ! b) (edges route)"
    using two res by blast
  show ?thesis
    using a b d one nd posl three c unfolding p_def by (simp only: list_all_iff simp_thms)
qed

section \<open>The mock friction scorer\<close>

text \<open>
  Claim C7.  The perturbation is computed from the built-in string hash, which CPython
  salts per process.  For one and the same e-bike leg at the same hour, a process whose
  hash of the endpoint ids is 0 modulo 100 scores 0.05 and a process whose hash is 99
  modulo 100 scores 0.446.
\<close>

theorem mock_friction_score_hash_seed:
  "mock_friction_score (\<lambda>s. 0) 12 (mk_leg ''a'' ''b'' EBIKE 200 720) = 0.05 \<and>
   mock_friction_score (\<lambda>s. 99) 12 (mk_leg ''a'' ''b'' EBIKE 200 720) = 0.446"
  by (simp add: mock_friction_score_def mk_leg_def)

section \<open>Stage 1 on a transit delay\<close>

lemma delay_leg_durationSec: "durationSec (delay_leg event leg) = durationSec leg"
  by (simp add: delay_leg_def Let_def split: option.splits)

text \<open>
  Claim C1.  A \<open>TRANSIT_DELAY\<close> of 15 minutes on mode \<open>TRANSIT\<close> with no affected
  routes, applied to two available transit legs of 600 s: both legs come out unavailable
  and still 600 s long.
\<close>

theorem apply_disruption_transit_delay_no_delay:
  "leg_objs (apply_disruption ex_store 0 (mk_event TRANSIT_DELAY)) =
     [(mk_leg ''a'' ''b'' TRANSIT 300 600)\<lparr>available := False\<rparr>,
      (mk_leg ''b'' ''c'' TRANSIT 300 600)\<lparr>available := False\<rparr>]"
  by code_simp

section \<open>The solver tag of the response\<close>

text \<open>
  Claim C5.  In a run where the complete search never answers, so that the route comes
  from the greedy fallback (the last solver call of the run), the response is tagged
  \<open>OR_TOOLS\<close>.
\<close>

theorem replan_solver_tag_greedy_route:
  "cp_sat ex_env = (\<lambda>n cm tm b d s. None) \<and>
   calls (fst (replan_itinerary ex_env ex_store 0 (mk_event TRANSIT_DELAY))) =
     [FETCH_ALTERNATIVES, SOLVE_VRPTW, GREEDY_FALLBACK, SOLVE_VRPTW, GREEDY_FALLBACK,
      PREDICT_FRICTION] \<and>
   map_sum id (\<lambda>r. (legs (itinerary r), solver (meta r)))
     (snd (replan_itinerary ex_env ex_store 0 (mk_event TRANSIT_DELAY))) =
     Inr ([(mk_leg ''a'' ''b'' TRANSIT 1 60)\<lparr>polyline := Some [], frictionScore := Some 0.15,
             frictionLevel := Some LOW\<rparr>], ''OR_TOOLS'')"
proof -
  have "cp_sat ex_env = (\<lambda>n cm tm b d s. None)" by (simp add: ex_env_def)
  moreover have "calls (fst (replan_itinerary ex_env ex_store 0 (mk_event TRANSIT_DELAY))) =
     [FETCH_ALTERNATIVES, SOLVE_VRPTW, GREEDY_FALLBACK, SOLVE_VRPTW, GREEDY_FALLBACK,
      PREDICT_FRICTION]" by code_simp
  moreover have "map_sum id (\<lambda>r. (legs (itinerary r), solver (meta r)))
     (snd (replan_itinerary ex_env ex_store 0 (mk_event TRANSIT_DELAY))) =
     Inr ([(mk_leg ''a'' ''b'' TRANSIT 1 60)\<lparr>polyline := Some [], frictionScore := Some 0.15,
             frictionLevel := Some LOW\<rparr>], ''OR_TOOLS'')" by code_simp
  ultimately show ?thesis by blast
qed

section \<open>Version and status of the new itinerary\<close>

text \<open>
  Claim C4, as amended.  Every successful replan returns an itinerary whose version is the
  version of the request's itinerary plus one.  Its status is \<open>REPLANNING\<close> on the
  seven-stage pipeline and \<open>ACTIVE\<close> on the hard-coded demo path.
\<close>

theorem replan_version_and_status:
  assumes "replan_itinerary e h req event = (h', Inr res)"
  shows "version (itinerary res) = version (itin_objs h ! req) + 1 \<and>
         itin_status (itinerary res) = (if demo_bypass e h req event then ACTIVE else REPLANNING)"
proof -
  obtain h1 itin where dc: "deep_copy h req = (h1, itin)" by (metis surj_pair)
  from assms dc show ?thesis
  proof (cases rule: replan_success_cases)
    case demo
    then show ?thesis using deep_copy_frame(9) [OF dc]
      by (simp add: hardcoded_maya_replan_def Let_def)
  next
    case (full h4 cm tm details vars)
    obtain ss cm' tm' dropped r where vars: "vars = (ss, cm', tm', dropped, r)"
      by (metis prod_cases5)
    have "itin_objs h4 = itin_objs h1"
      using solve_with_drops_frame [OF full(4)] by simp
    then have v: "version (itin_objs h4 ! itin) = version (itin_objs h ! req)"
      using deep_copy_frame(9) [OF dc] by simp
    from assemble_success [OF full(6) [unfolded vars]] show ?thesis
      using v full(1) by auto
  qed
qed

theorem replan_version_and_status_witness:
  "map_sum id (\<lambda>r. (version (itinerary r), itin_status (itinerary r)))
     (snd (replan_itinerary ex_env ex_store 0 (mk_event TRANSIT_DELAY))) = Inr (2, REPLANNING)"
proof -
  define p where "p = replan_itinerary ex_env ex_store 0 (mk_event TRANSIT_DELAY)"
  have "map_sum id (\<lambda>r. ()) (snd p) = Inr ()" unfolding p_def by code_simp
  then obtain res where res: "snd p = Inr res" by (cases "snd p") auto
  then have eq: "replan_itinerary ex_env ex_store 0 (mk_event TRANSIT_DELAY) = (fst p, Inr res)"
    unfolding p_def by (metis prod.collapse)
  have nd: "\<not> demo_bypass ex_env ex_store 0 (mk_event TRANSIT_DELAY)"
    by (simp add: demo_bypass_def mk_event_def)
  have v: "version (itin_objs ex_store ! 0) = 1"
    by (simp add: ex_store_def ex_itin_def)
  have "version (itinerary res) = 2 \<and> itin_status (itinerary res) = REPLANNING"
    using replan_version_and_status [OF eq] nd v by simp
  then show ?thesis using res unfolding p_def by simp
qed

text \<open>
  Claim C4 as stated fails on the demo path: a \<open>LINE_CANCELLATION\<close> for the demo session
  succeeds with status \<open>ACTIVE\<close>.
\<close>

theorem replan_demo_status_counterexample:
  "demo_bypass ex_env demo_store 0 (mk_event LINE_CANCELLATION) \<and>
   map_sum id (\<lambda>r. itin_status (itinerary r))
     (snd (replan_itinerary ex_env demo_store 0 (mk_event LINE_CANCELLATION))) = Inr ACTIVE"
proof -
  have "demo_bypass ex_env demo_store 0 (mk_event LINE_CANCELLATION)" by code_simp
  moreover have "map_sum id (\<lambda>r. itin_status (itinerary r))
     (snd (replan_itinerary ex_env demo_store 0 (mk_event LINE_CANCELLATION))) = Inr ACTIVE"
    by code_simp
  ultimately show ?thesis by blast
qed

section \<open>Fewer than two active stops\<close>

text \<open>
  Claim C8.  Off the demo path, when fewer than two stops of the working copy are
  \<open>PENDING\<close> after stage 1, the request fails with status 422 and the message about
  needing at least two active stops, and the log of collaborator calls is the one the
  request started with: neither the fan-out nor a solver was invoked.
\<close>

theorem replan_needs_two_active_stops:
  assumes "\<not> demo_bypass e h req event"
    and "length (active_refs
           (apply_disruption (fst (deep_copy h req)) (snd (deep_copy h req)) event)
           (snd (deep_copy h req))) < 2"
  shows "snd (replan_itinerary e h req event) =
           Inl (HTTPException 422 ''Need at least 2 active stops to build an itinerary.'') \<and>
         calls (fst (replan_itinerary e h req event)) = calls h"
proof -
  obtain h1 itin where dc: "deep_copy h req = (h1, itin)" by (metis surj_pair)
  have nd: "\<not> (itin_id (itin_objs h1 ! itin) = DEMO_SESSION e \<and> event_type event = LINE_CANCELLATION)"
    using assms(1) deep_copy_frame(8) [OF dc] by (simp add: demo_bypass_def)
  have "replan_itinerary e h req event =
          (apply_disruption h1 itin event,
           Inl (HTTPException 422 ''Need at least 2 active stops to build an itinerary.''))"
    using assms(2) dc nd by (simp add: replan_itinerary_def Let_def)
  then show ?thesis using deep_copy_frame(2) [OF dc] by simp
qed

theorem replan_needs_two_active_stops_witness:
  "\<not> demo_bypass ex_env two_stop_store 0 (mk_event VENUE_CLOSED) \<and>
   length (active_refs
     (apply_disruption (fst (deep_copy two_stop_store 0)) (snd (deep_copy two_stop_store 0))
        (mk_event VENUE_CLOSED))
     (snd (deep_copy two_stop_store 0))) < 2 \<and>
   snd (replan_itinerary ex_env two_stop_store 0 (mk_event VENUE_CLOSED)) =
     Inl (HTTPException 422 ''Need at least 2 active stops to build an itinerary.'') \<and>
   calls (fst (replan_itinerary ex_env two_stop_store 0 (mk_event VENUE_CLOSED))) = []"
proof -
  have a: "\<not> demo_bypass ex_env two_stop_store 0 (mk_event VENUE_CLOSED)"
    by (simp add: demo_bypass_def mk_event_def)
  have b: "length (active_refs
     (apply_disruption (fst (deep_copy two_stop_store 0)) (snd (deep_copy two_stop_store 0))
        (mk_event VENUE_CLOSED))
     (snd (deep_copy two_stop_store 0))) < 2"
    by code_simp
  have c: "calls two_stop_store = []" by (simp add: two_stop_store_def)
  show ?thesis
    using a b replan_needs_two_active_stops [OF a b] c by simp
qed

section \<open>The request's itinerary is not mutated\<close>

text \<open>
  Claim C9.  Whatever the outcome of the request, every stop, leg and itinerary object
  that was in the store before the call is in the store after it with all fields equal;
  in particular the request's itinerary, its stops and its legs.  All writes of the
  pipeline go to the objects of the working copy.
\<close>

theorem replan_input_untouched: "untouched h (fst (replan_itinerary e h req event))"
proof -
  obtain h1 itin where dc: "deep_copy h req = (h1, itin)" by (metis surj_pair)
  note fr = deep_copy_frame [OF dc]
  have u1: "untouched h h1" using fr(3,4,5) by (simp add: untouched_def)
  let ?h2 = "apply_disruption h1 itin event"
  have u2: "untouched h ?h2"
  proof (rule untouched_step [OF u1])
    fix a assume "a < length (stop_objs h)"
    then have "a \<notin> set (stops (itin_objs h1 ! itin))" using fr(6) by simp
    then show "stop_objs ?h2 ! a = stop_objs h1 ! a" by (rule apply_disruption_other_stop)
  next
    fix a assume "a < length (leg_objs h)"
    then have "a \<notin> set (legs (itin_objs h1 ! itin))" using fr(7) by simp
    then show "leg_objs ?h2 ! a = leg_objs h1 ! a" by (rule apply_disruption_other_leg)
  qed simp_all
  let ?h3 = "log_call FETCH_ALTERNATIVES ?h2"
  have u3: "untouched h ?h3" using u2 by (rule untouched_log_call)
  have loop: "untouched h h4"
    if "solve_with_drops k e b d ?h3 (active_refs ?h2 itin, cm, tm, dr, r) = (h4, res)"
    for k b d cm tm dr r h4 res
  proof (rule untouched_step [OF u3])
    note sf = solve_with_drops_frame [OF that]
    show "length (stop_objs h4) = length (stop_objs ?h3)" "length (leg_objs h4) = length (leg_objs ?h3)"
      "itin_objs h4 = itin_objs ?h3"
      using sf by simp_all
    fix a
    show "leg_objs h4 ! a = leg_objs ?h3 ! a" using sf by simp
    assume "a < length (stop_objs h)"
    then have "a \<notin> set (stops (itin_objs ?h2 ! itin))" using fr(6) by simp
    then have "a \<notin> set (active_refs ?h2 itin)" using active_refs_subset by blast
    then show "stop_objs h4 ! a = stop_objs ?h3 ! a" using sf by simp
  qed
  show ?thesis
  proof (cases "itin_id (itin_objs h1 ! itin) = DEMO_SESSION e \<and> event_type event = LINE_CANCELLATION")
    case True
    then show ?thesis using dc u1 by (simp add: replan_itinerary_def)
  next
    case nd: False
    show ?thesis
    proof (cases "length (active_refs ?h2 itin) < 2")
      case True
      then show ?thesis using dc nd u2 by (auto simp: replan_itinerary_def Let_def)
    next
      case False
      obtain cm tm details where fa: "fetch_alternatives e
         (map (\<lambda>a. stop_objs ?h2 ! a) (active_refs ?h2 itin))
         (preferredModes (user (itin_objs ?h2 ! itin))) = (cm, tm, details)"
        by (metis prod_cases3)
      obtain h4 res where sw: "solve_with_drops (length (active_refs ?h2 itin)) e
         (budgetCents (user (itin_objs ?h2 ! itin)))
         (deadline_budget e (returnDeadline (user (itin_objs ?h2 ! itin))))
         ?h3 (active_refs ?h2 itin, cm, tm, already_dropped ?h3 itin, None) = (h4, res)"
        by (metis surj_pair)
      have u4: "untouched h h4" using sw by (rule loop)
      have u5: "untouched h (fst (assemble e h4 req itin details vars))" for vars
        using assemble_store [of e h4 req itin details vars] u4 untouched_log_call by metis
      show ?thesis using dc nd False fa sw u4 u5
        by (auto simp: replan_itinerary_def Let_def split: sum.splits)
    qed
  qed
qed

section \<open>Priority-respecting drops\<close>

text \<open>
  Claim C6, as amended.  Take a successful replan off the demo path in which the drop loop
  drops a \<open>MUST_VISIT\<close> stop (the stops the loop dropped are the entries of
  \<open>diff.droppedStops\<close> after those already dropped when the loop started).  Then every
  \<open>NICE_TO_HAVE\<close> stop has status \<open>DROPPED\<close> in the returned itinerary, except the stop
  at routing index 0 (the first stop that is \<open>PENDING\<close> after stage 1) and the stops
  that are \<open>COMPLETED\<close> after stage 1.  Each stop object of the working copy is paired
  with the stop at the same position of the returned itinerary.
\<close>

theorem replan_priority_respecting_drops:
  assumes ok: "replan_itinerary e h req event = (h', Inr res)"
    and nd: "\<not> demo_bypass e h req event"
    and must: "\<exists>s\<in>set (drop (length (already_dropped (stage1 h req event) (working h req)))
                          (droppedStops (diff res))). priority s = MUST_VISIT"
  shows "\<forall>(a, s)\<in>set (zip (stops (itin_objs (stage1 h req event) ! working h req))
                        (stops (itinerary res))).
           status (stop_objs (stage1 h req event) ! a) \<noteq> COMPLETED \<and>
           a \<noteq> hd (active_refs (stage1 h req event) (working h req)) \<and>
           priority s = NICE_TO_HAVE \<longrightarrow> status s = DROPPED"
proof -
  obtain h1 itin where dc: "deep_copy h req = (h1, itin)" by (metis surj_pair)
  note fr = deep_copy_frame [OF dc]
  let ?h2 = "apply_disruption h1 itin event"
  let ?h3 = "log_call FETCH_ALTERNATIVES ?h2"
  let ?active = "active_refs ?h2 itin"
  let ?refs = "stops (itin_objs h1 ! itin)"
  have w: "working h req = itin" "stage1 h req event = ?h2"
    using dc by (simp_all add: working_def stage1_def)
  from ok dc show ?thesis
  proof (cases rule: replan_success_cases)
    case demo
    with nd show ?thesis by simp
  next
    case (full h4 cm tm details vars)
    obtain ss' cm' tm' dropped' r' where vars: "vars = (ss', cm', tm', dropped', r')"
      by (metis prod_cases5)
    have valid: "\<forall>a\<in>set ?active. a < length (stop_objs ?h3)"
    proof
      fix a assume "a \<in> set ?active"
      then have "a \<in> set ?refs" using active_refs_subset [of ?h2 itin] by auto
      then show "a < length (stop_objs ?h3)" using fr(6) fr(11) by simp
    qed
    from solve_with_drops_priority [OF full(4) [unfolded vars] valid] obtain new where
      d: "dropped' = already_dropped ?h3 itin @ new"
      and cover: "set (tl ?active) \<subseteq> set (tl ss') \<union> set new"
      and st: "\<forall>a\<in>set new. status (stop_objs h4 ! a) = DROPPED"
      and nn: "(\<exists>a\<in>set new. priority (stop_objs ?h3 ! a) \<noteq> NICE_TO_HAVE) \<longrightarrow>
               (\<forall>a\<in>set (tl ss'). priority (stop_objs ?h3 ! a) \<noteq> NICE_TO_HAVE)"
      and pr: "\<forall>a. priority (stop_objs h4 ! a) = priority (stop_objs ?h3 ! a)"
      and keep: "\<forall>a. status (stop_objs ?h3 ! a) = DROPPED \<longrightarrow> status (stop_objs h4 ! a) = DROPPED"
      by blast
    from assemble_success [OF full(6) [unfolded vars]] obtain legs0 tc td where
      res: "res = response e h4 req itin dropped' r'
                    (apply_friction legs0 (predict_friction e legs0)) tc td"
      by blast
    have it4: "itin_objs h4 = itin_objs h1"
      using solve_with_drops_frame [OF full(4) [unfolded vars]] by simp
    have ds: "drop (length (already_dropped ?h2 itin)) (droppedStops (diff res)) =
              map (\<lambda>a. stop_objs h4 ! a) new"
      using res d by (simp add: drop_map)
    from must obtain a0 where a0: "a0 \<in> set new" "priority (stop_objs h4 ! a0) = MUST_VISIT"
      unfolding w ds by auto
    then have "priority (stop_objs ?h3 ! a0) \<noteq> NICE_TO_HAVE" using pr by simp
    then have none: "\<forall>a\<in>set (tl ss'). priority (stop_objs ?h3 ! a) \<noteq> NICE_TO_HAVE"
      using nn a0(1) by blast
    have out: "stops (itinerary res) =
               map (\<lambda>a. reflect_drop (map (\<lambda>a. stop_objs h4 ! a) dropped') (stop_objs h4 ! a)) ?refs"
      using res it4 by simp
    show ?thesis unfolding w
    proof (clarify)
      fix a s
      assume z: "(a, s) \<in> set (zip (stops (itin_objs ?h2 ! itin)) (stops (itinerary res)))"
        and nc: "status (stop_objs ?h2 ! a) \<noteq> COMPLETED"
        and nh: "a \<noteq> hd ?active" and nice: "priority s = NICE_TO_HAVE"
      have s: "s = reflect_drop (map (\<lambda>a. stop_objs h4 ! a) dropped') (stop_objs h4 ! a)"
        using z unfolding out by (simp only: apply_disruption_frame) (rule zip_map_self)
      have aref: "a \<in> set (stops (itin_objs ?h2 ! itin))" using z by (rule set_zip_leftD)
      have "status (stop_objs h4 ! a) = DROPPED"
      proof (cases "status (stop_objs ?h2 ! a)")
        case PENDING
        then have "a \<in> set ?active" using aref by (simp add: active_refs_def)
        then have "?active \<noteq> []" by auto
        then have "set ?active = insert (hd ?active) (set (tl ?active))"
          by (cases ?active) simp_all
        with \<open>a \<in> set ?active\<close> nh have act: "a \<in> set (tl ?active)" by auto
        have "priority (stop_objs ?h3 ! a) = NICE_TO_HAVE"
          using s nice pr by (simp add: reflect_drop_fields)
        then have "a \<notin> set (tl ss')" using none by auto
        then have "a \<in> set new" using act cover by auto
        then show ?thesis using st by simp
      next
        case COMPLETED
        with nc show ?thesis by simp
      next
        case DROPPED
        then show ?thesis using keep by simp
      qed
      then show "status s = DROPPED" using s by (simp add: reflect_drop_fields)
    qed
  qed
qed

theorem replan_priority_respecting_drops_witness:
  "map_sum id
     (\<lambda>r. (list_ex (\<lambda>s. priority s = MUST_VISIT)
              (drop (length (already_dropped (stage1 four_stop_store 0 (mk_event TRANSIT_DELAY))
                               (working four_stop_store 0)))
                 (droppedStops (diff r))),
            map (\<lambda>s. (stop_id s, priority s, status s)) (stops (itinerary r)),
            list_all (\<lambda>(a, s).
                status (stop_objs (stage1 four_stop_store 0 (mk_event TRANSIT_DELAY)) ! a) \<noteq>
                  COMPLETED \<and>
                a \<noteq> hd (active_refs (stage1 four_stop_store 0 (mk_event TRANSIT_DELAY))
                           (working four_stop_store 0)) \<and>
                priority s = NICE_TO_HAVE \<longrightarrow> status s = DROPPED)
              (zip (stops (itin_objs (stage1 four_stop_store 0 (mk_event TRANSIT_DELAY)) !
                      working four_stop_store 0))
                 (stops (itinerary r)))))
     (snd (replan_itinerary ex_env2 four_stop_store 0 (mk_event TRANSIT_DELAY))) =
   Inr (True,
        [(''a'', MUST_VISIT, PENDING), (''b'', NICE_TO_HAVE, DROPPED),
         (''c'', MUST_VISIT, PENDING), (''d'', MUST_VISIT, DROPPED)],
        True)"
proof -
  define p where "p = replan_itinerary ex_env2 four_stop_store 0 (mk_event TRANSIT_DELAY)"
  define n0 where "n0 = length (already_dropped (stage1 four_stop_store 0 (mk_event TRANSIT_DELAY))
                                  (working four_stop_store 0))"
  have ev: "map_sum id
     (\<lambda>r. (list_ex (\<lambda>s. priority s = MUST_VISIT) (drop n0 (droppedStops (diff r))),
            map (\<lambda>s. (stop_id s, priority s, status s)) (stops (itinerary r))))
     (snd p) =
     Inr (True,
        [(''a'', MUST_VISIT, PENDING), (''b'', NICE_TO_HAVE, DROPPED),
         (''c'', MUST_VISIT, PENDING), (''d'', MUST_VISIT, DROPPED)])"
    unfolding p_def n0_def by code_simp
  then obtain res where res: "snd p = Inr res" by (cases "snd p") auto
  then have eq: "replan_itinerary ex_env2 four_stop_store 0 (mk_event TRANSIT_DELAY) = (fst p, Inr res)"
    unfolding p_def by (metis prod.collapse)
  have nd: "\<not> demo_bypass ex_env2 four_stop_store 0 (mk_event TRANSIT_DELAY)"
    by (simp add: demo_bypass_def mk_event_def)
  have must: "\<exists>s\<in>set (drop (length (already_dropped (stage1 four_stop_store 0 (mk_event TRANSIT_DELAY))
                               (working four_stop_store 0)))
                          (droppedStops (diff res))). priority s = MUST_VISIT"
    using ev res unfolding n0_def by (simp add: list_ex_iff)
  note concl = replan_priority_respecting_drops [OF eq nd must]
  show ?thesis
    using ev res concl unfolding p_def n0_def by (simp add: list_all_iff)
qed

text \<open>
  Claim C6 as stated fails in two ways.  With the \<open>NICE_TO_HAVE\<close> stop at routing index 0
  the loop drops the \<open>MUST_VISIT\<close> stop \<open>c\<close> and the \<open>NICE_TO_HAVE\<close> stop \<open>a\<close> stays
  \<open>PENDING\<close> in the returned itinerary.  With a \<open>NICE_TO_HAVE\<close> stop that is already
  \<open>COMPLETED\<close> the loop drops the \<open>MUST_VISIT\<close> stop \<open>d\<close> and the \<open>NICE_TO_HAVE\<close>
  stop \<open>b\<close> stays \<open>COMPLETED\<close>.
\<close>

theorem replan_drop_index_zero_counterexample:
  "map_sum id
     (\<lambda>r. (map (\<lambda>s. (stop_id s, priority s))
              (drop (length (already_dropped (stage1 ex_store 0 (mk_event TRANSIT_DELAY))
                               (working ex_store 0)))
                 (droppedStops (diff r))),
            map (\<lambda>s. (stop_id s, priority s, status s)) (stops (itinerary r))))
     (snd (replan_itinerary ex_env ex_store 0 (mk_event TRANSIT_DELAY))) =
   Inr ([(''c'', MUST_VISIT)],
        [(''a'', NICE_TO_HAVE, PENDING), (''b'', MUST_VISIT, PENDING),
         (''c'', MUST_VISIT, DROPPED)]) \<and>
   map_sum id
     (\<lambda>r. (map (\<lambda>s. (stop_id s, priority s))
              (drop (length (already_dropped (stage1 completed_store 0 (mk_event TRANSIT_DELAY))
                               (working completed_store 0)))
                 (droppedStops (diff r))),
            map (\<lambda>s. (stop_id s, priority s, status s)) (stops (itinerary r))))
     (snd (replan_itinerary ex_env completed_store 0 (mk_event TRANSIT_DELAY))) =
   Inr ([(''d'', MUST_VISIT)],
        [(''a'', MUST_VISIT, PENDING), (''b'', NICE_TO_HAVE, COMPLETED),
         (''c'', MUST_VISIT, PENDING), (''d'', MUST_VISIT, DROPPED)])"
proof -
  have "map_sum id
     (\<lambda>r. (map (\<lambda>s. (stop_id s, priority s))
              (drop (length (already_dropped (stage1 ex_store 0 (mk_event TRANSIT_DELAY))
                               (working ex_store 0)))
                 (droppedStops (diff r))),
            map (\<lambda>s. (stop_id s, priority s, status s)) (stops (itinerary r))))
     (snd (replan_itinerary ex_env ex_store 0 (mk_event TRANSIT_DELAY))) =
   Inr ([(''c'', MUST_VISIT)],
        [(''a'', NICE_TO_HAVE, PENDING), (''b'', MUST_VISIT, PENDING),
         (''c'', MUST_VISIT, DROPPED)])"
    by code_simp
  moreover have "map_sum id
     (\<lambda>r. (map (\<lambda>s. (stop_id s, priority s))
              (drop (length (already_dropped (stage1 completed_store 0 (mk_event TRANSIT_DELAY))
                               (working completed_store 0)))
                 (droppedStops (diff r))),
            map (\<lambda>s. (stop_id s, priority s, status s)) (stops (itinerary r))))
     (snd (replan_itinerary ex_env completed_store 0 (mk_event TRANSIT_DELAY))) =
   Inr ([(''d'', MUST_VISIT)],
        [(''a'', MUST_VISIT, PENDING), (''b'', NICE_TO_HAVE, COMPLETED),
         (''c'', MUST_VISIT, PENDING), (''d'', MUST_VISIT, DROPPED)])"
    by code_simp
  ultimately show ?thesis by blast
qed

section \<open>Budget of the new itinerary\<close>

lemma shrink_square:
  assumes "square n m" "d < n"
  shows "square (n - 1) (shrink d m)"
proof -
  have "length (remove_at d m) = n - 1" using assms by (simp add: square_def length_remove_at)
  moreover have "length (remove_at d row) = n - 1" if "row \<in> set (remove_at d m)" for row
  proof -
    from that set_remove_at [of d m] have "row \<in> set m" by blast
    with assms(1) have "length row = n" by (simp add: square_def list_all_iff)
    with assms(2) show ?thesis by (simp add: length_remove_at)
  qed
  ultimately show ?thesis by (simp add: square_def shrink_def list_all_iff)
qed

lemma shrink_nonneg:
  assumes "nonneg m"
  shows "nonneg (shrink d m)"
  unfolding nonneg_def shrink_def
proof (intro ballI)
  fix row c
  assume row: "row \<in> set (map (remove_at d) (remove_at d m))" and c: "c \<in> set row"
  from row obtain row0 where r0: "row0 \<in> set (remove_at d m)" "row = remove_at d row0" by auto
  from r0(1) set_remove_at [of d m] have "row0 \<in> set m" by blast
  moreover from c r0(2) set_remove_at [of d row0] have "c \<in> set row0" by blast
  ultimately show "0 \<le> c" using assms by (simp add: nonneg_def)
qed

lemma solve_with_drops_budget:
  "solve_with_drops k e b d h (ss, cm, tm, dropped, r) = (h', Inr (ss', cm', tm', dropped', r')) \<Longrightarrow>
   truthy r' \<Longrightarrow> \<not> truthy r \<Longrightarrow> square (length ss) cm \<Longrightarrow> square (length ss) tm \<Longrightarrow>
   nonneg cm \<Longrightarrow> \<forall>n cm tm. cp_sound (cp_sat e) n cm tm b d 0 \<Longrightarrow>
   \<exists>route. r' = Some route \<and> path_sum cm' route \<le> b"
proof (induction k arbitrary: h ss cm tm dropped r)
  case 0
  then show ?case by simp
next
  case (Suc k)
  let ?dumped = "map (\<lambda>a. stop_objs h ! a) ss"
  from Suc.prems(1) show ?case
  proof (cases rule: solve_with_drops_cases)
    case stop
    with Suc.prems(2,3) show ?thesis by simp
  next
    case (found r2 r1)
    from found(2) obtain route where route: "r2 = Some route"
      by (cases r2) (simp_all add: truthy_def)
    have two: "2 \<le> length ?dumped" using found(1) by simp
    have sq: "square (length ?dumped) cm" "square (length ?dumped) tm"
      using Suc.prems(4,5) by simp_all
    have sound: "cp_sound (cp_sat e) (length ?dumped) cm tm b d 0" using Suc.prems(7) by blast
    from found(5) have "path_sum cm route \<le> b"
    proof
      assume "solve_vrptw (cp_sat e) ?dumped cm tm b d 0 = Inr r2"
      then show ?thesis
        using solve_vrptw_route [OF two sound Suc.prems(6) sq(1)] route by simp
    next
      assume "greedy_fallback ?dumped cm tm b d 0 = Inr r2"
      then show ?thesis
        using greedy_fallback_route [OF sq two] route by simp
    qed
    then show ?thesis using found(3) route by simp
  next
    case (nodrop h2 r2 ss1 cm1 tm1)
    with Suc.prems(2) show ?thesis by simp
  next
    case (dropped h2 h3 r2 x ss1 cm1 tm1 r1)
    from drop_lowest_priority_Some [OF dropped(4)] obtain i where
      i: "1 \<le> i" "i < length ss" "ss1 = remove_at i ss" "cm1 = shrink i cm" "tm1 = shrink i tm"
      by blast
    have len: "length ss1 = length ss - 1" using i by (simp add: length_remove_at)
    have sq: "square (length ss1) cm1" "square (length ss1) tm1"
      unfolding len i(4,5)
      using shrink_square [OF Suc.prems(4) i(2)] shrink_square [OF Suc.prems(5) i(2)]
      by simp_all
    have nn: "nonneg cm1" unfolding i(4) using Suc.prems(6) by (rule shrink_nonneg)
    from Suc.IH [OF dropped(5) Suc.prems(2) dropped(2) sq nn Suc.prems(7)] show ?thesis .
  qed
qed

text \<open>
  Claim C3, as amended.  Every successful replan returns an itinerary whose \<open>totalCost\<close>
  is the sum of \<open>costCents\<close> over its legs and whose user constraints are those of the
  request.  On the seven-stage pipeline that sum is at most \<open>budgetCents\<close>, provided the
  direction sources report no negative cost and the complete search reports only
  assignments that satisfy its model: the route comes from \<open>solve_vrptw\<close>, whose budget
  constraint covers the route's edges and the closing edge, or from \<open>greedy_fallback\<close>,
  which keeps the running cost within the budget, on matrices that dropping a stop only
  shrinks.
\<close>

theorem replan_budget_preservation:
  assumes ok: "replan_itinerary e h req event = (h', Inr res)"
  shows "totalCost (itinerary res) = sum_list (map costCents (legs (itinerary res))) \<and>
         user (itinerary res) = user (itin_objs h ! req) \<and>
         (\<not> demo_bypass e h req event \<and>
          (\<forall>i j a b m. 0 \<le> ld_costCents (directions e i j a b m)) \<and>
          (\<forall>n cm tm b d. cp_sound (cp_sat e) n cm tm b d 0) \<longrightarrow>
          sum_list (map costCents (legs (itinerary res))) \<le> budgetCents (user (itinerary res)))"
proof -
  obtain h1 itin where dc: "deep_copy h req = (h1, itin)" by (metis surj_pair)
  note fr = deep_copy_frame [OF dc]
  let ?h2 = "apply_disruption h1 itin event"
  let ?h3 = "log_call FETCH_ALTERNATIVES ?h2"
  let ?active = "active_refs ?h2 itin"
  let ?B = "budgetCents (user (itin_objs h ! req))"
  let ?D = "deadline_budget e (returnDeadline (user (itin_objs h ! req)))"
  from ok dc show ?thesis
  proof (cases rule: replan_success_cases)
    case demo
    then show ?thesis using fr(10) by (simp add: hardcoded_maya_replan_def Let_def)
  next
    case (full h4 cm tm details vars)
    obtain ss' cm' tm' dropped' r' where vars: "vars = (ss', cm', tm', dropped', r')"
      by (metis prod_cases5)
    have tr: "truthy r'" using full(5) vars by simp
    then obtain route where route: "r' = Some route"
      by (cases r') (simp_all add: truthy_def)
    have "itin_objs h4 = itin_objs h1"
      using solve_with_drops_frame [OF full(4)] by simp
    then have u: "user (itin_objs h4 ! itin) = user (itin_objs h ! req)"
      using fr(10) by simp
    from assemble_success [OF full(6) [unfolded vars]] obtain legs0 tc td where
      bl: "build_legs (map (\<lambda>a. stop_objs h4 ! a) ss') cm' tm' details
             (case preferredModes (user (itin_objs h4 ! itin)) of [] \<Rightarrow> WALKING | m0 # _ \<Rightarrow> m0)
             (case r' of None \<Rightarrow> [] | Some x \<Rightarrow> x) ([], 0, 0) = Inr (legs0, tc, td)"
      and res: "res = response e h4 req itin dropped' r'
                    (apply_friction legs0 (predict_friction e legs0)) tc td"
      by blast
    have costs: "map costCents (legs (itinerary res)) = map (\<lambda>(a, b). cm' ! a ! b) (edges route)"
      and tc: "tc = sum_list (map (\<lambda>(a, b). cm' ! a ! b) (edges route))"
      using build_legs_edges [OF bl] res route by (simp_all add: apply_friction_costs)
    have total: "totalCost (itinerary res) = sum_list (map costCents (legs (itinerary res)))"
      unfolding costs using res tc by simp
    have usr: "user (itinerary res) = user (itin_objs h ! req)" using res u by simp
    have bud: "sum_list (map costCents (legs (itinerary res))) \<le> budgetCents (user (itinerary res))"
      if nn: "\<forall>i j a b m. 0 \<le> ld_costCents (directions e i j a b m)"
        and sound: "\<forall>n cm tm b d. cp_sound (cp_sat e) n cm tm b d 0"
    proof -
      have sq: "square (length ?active) cm" "square (length ?active) tm"
        using fetch_alternatives_shape(1,2) [OF full(3)] by simp_all
      have nnm: "nonneg cm" using fetch_alternatives_shape(3) [OF full(3) nn] .
      have sound': "\<forall>n cm tm. cp_sound (cp_sat e) n cm tm ?B ?D 0" using sound by blast
      have nt: "\<not> truthy None" by (simp add: truthy_def)
      from solve_with_drops_budget [OF full(4) [unfolded vars] tr nt sq nnm sound'] route
      have "path_sum cm' route \<le> ?B" by simp
      then show ?thesis unfolding costs usr by (simp add: path_sum_edges)
    qed
    show ?thesis using total usr bud by blast
  qed
qed

theorem replan_budget_preservation_witness:
  "\<not> demo_bypass ex_env ex_store 0 (mk_event TRANSIT_DELAY) \<and>
   map_sum id (\<lambda>r. (map costCents (legs (itinerary r)), totalCost (itinerary r)))
     (snd (replan_itinerary ex_env ex_store 0 (mk_event TRANSIT_DELAY))) = Inr ([1], 1) \<and>
   budgetCents (user (itin_objs ex_store ! 0)) = 10 \<and>
   (\<exists>res. snd (replan_itinerary ex_env ex_store 0 (mk_event TRANSIT_DELAY)) = Inr res \<and>
      totalCost (itinerary res) = sum_list (map costCents (legs (itinerary res))) \<and>
      user (itinerary res) = user (itin_objs ex_store ! 0) \<and>
      sum_list (map costCents (legs (itinerary res))) \<le> budgetCents (user (itinerary res)))"
proof -
  define p where "p = replan_itinerary ex_env ex_store 0 (mk_event TRANSIT_DELAY)"
  have val: "map_sum id (\<lambda>r. (map costCents (legs (itinerary r)), totalCost (itinerary r)))
               (snd p) = Inr ([1], 1)"
    unfolding p_def by code_simp
  then obtain res where res: "snd p = Inr res" by (cases "snd p") auto
  then have eq: "replan_itinerary ex_env ex_store 0 (mk_event TRANSIT_DELAY) = (fst p, Inr res)"
    unfolding p_def by (metis prod.collapse)
  have nd: "\<not> demo_bypass ex_env ex_store 0 (mk_event TRANSIT_DELAY)"
    by (simp add: demo_bypass_def mk_event_def)
  have nn: "\<forall>i j a b m. 0 \<le> ld_costCents (directions ex_env i j a b m)"
    by (simp add: ex_env_def)
  have sound: "\<forall>n cm tm b d. cp_sound (cp_sat ex_env) n cm tm b d 0"
    by (simp add: cp_sound_def ex_env_def)
  have b: "budgetCents (user (itin_objs ex_store ! 0)) = 10"
    by (simp add: ex_store_def ex_itin_def)
  have "totalCost (itinerary res) = sum_list (map costCents (legs (itinerary res))) \<and>
        user (itinerary res) = user (itin_objs ex_store ! 0) \<and>
        sum_list (map costCents (legs (itinerary res))) \<le> budgetCents (user (itinerary res))"
    using replan_budget_preservation [OF eq] nd nn sound by blast
  then have "\<exists>res. snd p = Inr res \<and>
      totalCost (itinerary res) = sum_list (map costCents (legs (itinerary res))) \<and>
      user (itinerary res) = user (itin_objs ex_store ! 0) \<and>
      sum_list (map costCents (legs (itinerary res))) \<le> budgetCents (user (itinerary res))"
    using res by blast
  then show ?thesis using nd val b unfolding p_def by (simp only: simp_thms)
qed

text \<open>
  Claim C3 as stated fails on the demo path: with a budget of 1000 cents, a
  \<open>LINE_CANCELLATION\<close> for the demo session succeeds with the two hard-coded legs of 500 and
  750 cents.  Off the demo path the bound needs the costs to be non-negative: with 20
  cents out and \<open>-15\<close> cents back, the cycle of the two stops costs 5 cents and satisfies
  the budget constraint of the complete search for a budget of 10 cents, and the one leg of
  the returned itinerary costs 20 cents.
\<close>

theorem replan_over_budget_counterexample:
  "(demo_bypass ex_env demo_store 0 (mk_event LINE_CANCELLATION) \<and>
    map_sum id (\<lambda>r. (map costCents (legs (itinerary r)), totalCost (itinerary r),
                      budgetCents (user (itinerary r)),
                      sum_list (map costCents (legs (itinerary r)))
                        \<le> budgetCents (user (itinerary r))))
      (snd (replan_itinerary ex_env demo_store 0 (mk_event LINE_CANCELLATION))) =
      Inr ([500, 750], 1250, 1000, False)) \<and>
   (\<not> demo_bypass neg_env pair_store 0 (mk_event TRANSIT_DELAY) \<and>
    fst (fanout neg_env pair_store 0 (mk_event TRANSIT_DELAY)) = [[0, 20], [- 15, 0]] \<and>
    cp_sound (cp_sat neg_env) 2 [[0, 20], [- 15, 0]] [[0, 0], [0, 0]] 10 18000 0 \<and>
    map_sum id (\<lambda>r. (map costCents (legs (itinerary r)), totalCost (itinerary r),
                      budgetCents (user (itinerary r)),
                      sum_list (map costCents (legs (itinerary r)))
                        \<le> budgetCents (user (itinerary r))))
      (snd (replan_itinerary neg_env pair_store 0 (mk_event TRANSIT_DELAY))) =
      Inr ([20], 20, 10, False))"
proof -
  have d1: "demo_bypass ex_env demo_store 0 (mk_event LINE_CANCELLATION)" by code_simp
  have d2: "map_sum id (\<lambda>r. (map costCents (legs (itinerary r)), totalCost (itinerary r),
                      budgetCents (user (itinerary r)),
                      sum_list (map costCents (legs (itinerary r)))
                        \<le> budgetCents (user (itinerary r))))
      (snd (replan_itinerary ex_env demo_store 0 (mk_event LINE_CANCELLATION))) =
      Inr ([500, 750], 1250, 1000, False)"
    by code_simp
  have n1: "\<not> demo_bypass neg_env pair_store 0 (mk_event TRANSIT_DELAY)" by code_simp
  have n2: "fst (fanout neg_env pair_store 0 (mk_event TRANSIT_DELAY)) = [[0, 20], [- 15, 0]]"
    by code_simp
  have n3: "cp_sound (cp_sat neg_env) 2 [[0, 20], [- 15, 0]] [[0, 0], [0, 0]] 10 18000 0"
    by code_simp
  have n4: "map_sum id (\<lambda>r. (map costCents (legs (itinerary r)), totalCost (itinerary r),
                      budgetCents (user (itinerary r)),
                      sum_list (map costCents (legs (itinerary r)))
                        \<le> budgetCents (user (itinerary r))))
      (snd (replan_itinerary neg_env pair_store 0 (mk_event TRANSIT_DELAY))) =
      Inr ([20], 20, 10, False)"
    by code_simp
  show ?thesis using d1 d2 n1 n2 n3 n4 by (simp only: simp_thms)
qed


end
